theory Spec2Isabelle
  imports Complex_Main
begin

section \<open>Numeric conventions\<close>

text \<open>
  The program is \<^verbatim>\<open>src/utils/math.ts\<close>.  Its numbers are JavaScript numbers.  Levels
  and the floored resource values are integral and are modelled as \<^typ>\<open>int\<close>; cultivation
  values, times, speed, reduction and the target are modelled as \<^typ>\<open>real\<close>, that is, the
  arithmetic is taken as exact (no rounding, no overflow to infinity, no NaN).  The initial
  \<^verbatim>\<open>Infinity\<close> of \<^verbatim>\<open>minTimeSeen\<close> is \<^const>\<open>None\<close> of \<^typ>\<open>real option\<close>.
\<close>

section \<open>The game formulas\<close>

definition getDifficultyModifier :: "int \<Rightarrow> real" where
  "getDifficultyModifier level =
     (if level < 309 then 1
      else if level \<ge> 309 \<and> level < 400 then (9 * real_of_int level - 1811) / 890
      else 2)"

definition getLevelUpCostValue :: "int \<Rightarrow> real \<Rightarrow> real" where
  "getLevelUpCostValue level difficulty =
     (difficulty * (real_of_int level ^ 3 + 1000) / 100) * getDifficultyModifier level"

definition getZhenyuan :: "int \<Rightarrow> real \<Rightarrow> bool \<Rightarrow> int" where
  "getZhenyuan level difficulty isMain =
     (let rawZhenyuan = (3 * real_of_int level ^ 3 * difficulty) / 10127;
          factor = (if isMain then 1 else 0.5)
      in \<lfloor>rawZhenyuan * factor\<rfloor>)"

definition getBreakthroughTime :: "int \<Rightarrow> real \<Rightarrow> real" where
  "getBreakthroughTime targetLevelEndingIn9 reductionPercent =
     (let baseTime =
            (if targetLevelEndingIn9 \<ge> 99 \<and> targetLevelEndingIn9 \<le> 289 then 2
             else if targetLevelEndingIn9 \<ge> 299 \<and> targetLevelEndingIn9 \<le> 389 then 4
             else if targetLevelEndingIn9 \<ge> 399 then 8
             else 0)
      in baseTime * (1 - reductionPercent / 100))"

text \<open>The loop \<^verbatim>\<open>for (let l = startLevel; l < startLevel + 10; l++)\<close> of getStepCost,
  with the running \<^verbatim>\<open>cultValue\<close> as accumulator.\<close>

function cultLoop :: "int \<Rightarrow> int \<Rightarrow> real \<Rightarrow> real \<Rightarrow> real" where
  "cultLoop l stop difficulty cultValue =
     (if l < stop
      then cultLoop (l + 1) stop difficulty (cultValue + getLevelUpCostValue l difficulty)
      else cultValue)"
  by pat_completeness auto
termination
  by (relation "measure (\<lambda>(l, stop, difficulty, cultValue). nat (stop - l))") auto

declare cultLoop.simps [simp del]

definition getStepCost :: "int \<Rightarrow> real \<Rightarrow> real \<Rightarrow> real \<Rightarrow> real" where
  "getStepCost startLevel difficulty speed breakthroughReduction =
     (let breakTime = getBreakthroughTime startLevel breakthroughReduction;
          cultValue = cultLoop startLevel (startLevel + 10) difficulty 0;
          cultTime = cultValue / speed
      in breakTime + cultTime)"

section \<open>Inputs of optimize\<close>

text \<open>
  An element of \<^verbatim>\<open>arts\<close>.  Its field \<^verbatim>\<open>id\<close> is \<open>art_id\<close> here (\<open>id\<close> is the identity
  function of HOL); \<^verbatim>\<open>count\<close> is a natural number, so the replica loop
  \<^verbatim>\<open>for (let i = 0; i < art.count; i++)\<close> runs over \<open>[0..<count]\<close>.
\<close>

record art =
  art_id :: string
  difficulty :: real
  isMain :: bool
  count :: nat

text \<open>An instance is the art's fields (the spread \<^verbatim>\<open>...art\<close>) with two more.\<close>

record art_instance = art +
  uniqueId :: string
  originalIndex :: nat

datatype targetType = Zhenyuan | Time

record settings =
  speed :: real
  reduction :: real
  targetType :: targetType
  targetValue :: real

subsection \<open>Step 1: flatten the replica counts\<close>

text \<open>Decimal rendering of the replica index inside the template string.\<close>

function showNat :: "nat \<Rightarrow> string" where
  "showNat n =
     (if n < 10 then [char_of (48 + n)]
      else showNat (n div 10) @ [char_of (48 + n mod 10)])"
  by pat_completeness auto
termination
  by (relation "measure id") auto

declare showNat.simps [simp del]

definition mkInstance :: "art \<Rightarrow> nat \<Rightarrow> nat \<Rightarrow> art_instance" where
  "mkInstance a idx i =
     \<lparr> art_id = art_id a, difficulty = difficulty a, isMain = isMain a, count = count a,
       uniqueId = art_id a @ ''_'' @ showNat i, originalIndex = idx \<rparr>"

fun flattenFrom :: "nat \<Rightarrow> art list \<Rightarrow> art_instance list" where
  "flattenFrom idx [] = []"
| "flattenFrom idx (a # rest) =
     map (mkInstance a idx) [0 ..< count a] @ flattenFrom (Suc idx) rest"

definition flatten :: "art list \<Rightarrow> art_instance list" where
  "flatten arts = flattenFrom 0 arts"

subsection \<open>Step 2: the option curve of an instance\<close>

text \<open>
  An option \<^verbatim>\<open>{ level, z, t }\<close>.  Options and frontier states both have fields \<^verbatim>\<open>z\<close>
  and \<^verbatim>\<open>t\<close>; the fields are told apart by the prefixes \<open>opt_\<close> and \<open>st_\<close>.
\<close>

record opt =
  opt_level :: int
  opt_z :: int
  opt_t :: real

text \<open>The loop \<^verbatim>\<open>for (let l = 99; l < 499; l += 10)\<close>, with \<^verbatim>\<open>cumTime\<close> and the
  \<^verbatim>\<open>options\<close> array pushed so far.\<close>

function optionsLoop :: "int \<Rightarrow> art_instance \<Rightarrow> settings \<Rightarrow> real \<Rightarrow> opt list \<Rightarrow> opt list" where
  "optionsLoop l inst st cumTime options =
     (if l < 499 then
        (let stepT = getStepCost l (difficulty inst) (speed st) (reduction st);
             cumTime' = cumTime + stepT;
             nextLevel = l + 10;
             nextZ = getZhenyuan nextLevel (difficulty inst) (isMain inst)
         in optionsLoop (l + 10) inst st cumTime'
              (options @ [\<lparr> opt_level = nextLevel, opt_z = nextZ, opt_t = cumTime' \<rparr>]))
      else options)"
  by pat_completeness auto
termination
  by (relation "measure (\<lambda>(l, inst, st, cumTime, options). nat (499 - l))") auto

declare optionsLoop.simps [simp del]

definition instanceOptions :: "art_instance \<Rightarrow> settings \<Rightarrow> opt list" where
  "instanceOptions inst st =
     optionsLoop 99 inst st 0
       [\<lparr> opt_level = 99,
          opt_z = getZhenyuan 99 (difficulty inst) (isMain inst),
          opt_t = 0 \<rparr>]"

subsection \<open>Step 3: merging the Pareto frontiers\<close>

record state =
  st_z :: int
  st_t :: real
  choices :: "int list"

definition BUCKET_SIZE :: int where
  "BUCKET_SIZE = 100"

text \<open>
  The candidate built in the inner loop body from one state and one option.
  \<^verbatim>\<open>options[0]\<close> is \<open>hd options\<close>: an option curve is never empty
  (\<open>instanceOptions_nonempty\<close> below).  The write \<^verbatim>\<open>newChoices[i] = opt.level\<close> is a list
  update: the index is always inside the vector, which has one entry per instance
  (\<open>frontierAfter_choices_length\<close> below).
\<close>

definition candidate :: "opt list \<Rightarrow> nat \<Rightarrow> state \<Rightarrow> opt \<Rightarrow> state" where
  "candidate options i s opt =
     (let baseZ_i = opt_z (hd options);
          deltaZ = opt_z opt - baseZ_i;
          newZ = st_z s + deltaZ;
          newT = st_t s + opt_t opt;
          newChoices = (choices s)[i := opt_level opt]
      in \<lparr> st_z = newZ, st_t = newT, choices = newChoices \<rparr>)"

text \<open>The two nested \<^verbatim>\<open>for ... of\<close> loops: states outside, options inside.\<close>

definition expand :: "state list \<Rightarrow> opt list \<Rightarrow> nat \<Rightarrow> state list" where
  "expand frontier options i =
     concat (map (\<lambda>s. map (candidate options i s) options) frontier)"

text \<open>\<^verbatim>\<open>nextFrontier.sort((a, b) => b.z - a.z)\<close>: a stable sort, value descending.\<close>

definition sortDesc :: "state list \<Rightarrow> state list" where
  "sortDesc xs = sort_key (\<lambda>s. - st_z s) xs"

definition bucketOf :: "state \<Rightarrow> int" where
  "bucketOf s = \<lfloor>real_of_int (st_z s) / real_of_int BUCKET_SIZE\<rfloor>"

definition beats :: "real \<Rightarrow> real option \<Rightarrow> bool" where
  "beats x minTimeSeen = (case minTimeSeen of None \<Rightarrow> True | Some m \<Rightarrow> x < m)"

text \<open>The variables the prune loop updates, and one turn of its body for the candidate
  \<^verbatim>\<open>state\<close>; \<^const>\<open>beats\<close> is the test \<^verbatim>\<open>state.t < minTimeSeen\<close>.\<close>

record prune_vars =
  pruned :: "state list"
  minTimeSeen :: "real option"
  seenBuckets :: "int set"

definition pruneStep :: "state \<Rightarrow> prune_vars \<Rightarrow> prune_vars" where
  "pruneStep s v =
     (if beats (st_t s) (minTimeSeen v) then
        (let bucket = bucketOf s in
         if bucket \<notin> seenBuckets v
         then \<lparr> pruned = pruned v @ [s],
                minTimeSeen = Some (st_t s),
                seenBuckets = insert bucket (seenBuckets v) \<rparr>
         else v)
      else v)"

definition pruneInit :: prune_vars where
  "pruneInit = \<lparr> pruned = [], minTimeSeen = None, seenBuckets = {} \<rparr>"

definition pruneLoop :: "state list \<Rightarrow> prune_vars" where
  "pruneLoop nextFrontier = fold pruneStep nextFrontier pruneInit"

definition mergeStep :: "state list \<Rightarrow> opt list \<Rightarrow> nat \<Rightarrow> state list" where
  "mergeStep frontier options i =
     pruned (pruneLoop (sortDesc (expand frontier options i)))"

text \<open>The loop \<^verbatim>\<open>for (let i = 0; i < instances.length; i++)\<close>, over the remaining option
  curves \<^verbatim>\<open>instanceOptions[i], instanceOptions[i+1], ...\<close>.\<close>

fun mergeLoop :: "nat \<Rightarrow> opt list list \<Rightarrow> state list \<Rightarrow> state list" where
  "mergeLoop i [] frontier = frontier"
| "mergeLoop i (options # rest) frontier =
     mergeLoop (Suc i) rest (mergeStep frontier options i)"

definition initialFrontier :: "nat \<Rightarrow> state list" where
  "initialFrontier n = [\<lparr> st_z = 0, st_t = 0, choices = replicate n 99 \<rparr>]"

subsection \<open>Step 4: choosing the state for the target\<close>

fun scanZhenyuan :: "state list \<Rightarrow> int \<Rightarrow> real \<Rightarrow> state option \<Rightarrow> state option" where
  "scanZhenyuan [] baseTotalZ target bestState = bestState"
| "scanZhenyuan (s # rest) baseTotalZ target bestState =
     (if real_of_int (st_z s + baseTotalZ) \<ge> target
      then scanZhenyuan rest baseTotalZ target (Some s)
      else bestState)"

fun scanTime :: "state list \<Rightarrow> real \<Rightarrow> state option" where
  "scanTime [] target = None"
| "scanTime (s # rest) target =
     (if st_t s \<le> target then Some s else scanTime rest target)"

definition selectZhenyuan :: "state list \<Rightarrow> int \<Rightarrow> real \<Rightarrow> state option" where
  "selectZhenyuan frontier baseTotalZ target =
     (let bestState = scanZhenyuan frontier baseTotalZ target None in
      if bestState = None \<and> length frontier > 0 then Some (frontier ! 0) else bestState)"

definition selectTime :: "state list \<Rightarrow> real \<Rightarrow> state option" where
  "selectTime frontier target =
     (let bestState = scanTime frontier target in
      if bestState = None \<and> length frontier > 0
      then Some (frontier ! (length frontier - 1)) else bestState)"

subsection \<open>Step 5: the result\<close>

record result =
  totalZhenyuan :: int
  totalTimeHours :: real
  arts :: "string \<rightharpoonup> int"
  path :: "string list"

text \<open>The loop \<^verbatim>\<open>instances.forEach((inst, idx) => ...)\<close> that fills the mapping from
  \<^verbatim>\<open>uniqueId\<close> to level; a later instance with the same key overwrites an earlier one,
  as in the object.  \<^verbatim>\<open>choices[idx]\<close> is \<open>cs ! idx\<close>, always inside the vector.\<close>

fun finalArts :: "nat \<Rightarrow> art_instance list \<Rightarrow> int list \<Rightarrow> (string \<rightharpoonup> int) \<Rightarrow> (string \<rightharpoonup> int)" where
  "finalArts idx [] cs m = m"
| "finalArts idx (inst # rest) cs m = finalArts (Suc idx) rest cs (m(uniqueId inst \<mapsto> cs ! idx))"

definition baseTotal :: "art_instance list \<Rightarrow> int" where
  "baseTotal instances =
     fold (\<lambda>inst baseTotalZ. baseTotalZ + getZhenyuan 99 (difficulty inst) (isMain inst))
       instances 0"

definition finalFrontier :: "art_instance list \<Rightarrow> settings \<Rightarrow> state list" where
  "finalFrontier instances st =
     mergeLoop 0 (map (\<lambda>inst. instanceOptions inst st) instances)
       (initialFrontier (length instances))"

definition optimize :: "art list \<Rightarrow> settings \<Rightarrow> result option" where
  "optimize as st =
     (let instances = flatten as in
      if length instances = 0
      then Some \<lparr> totalZhenyuan = 0, totalTimeHours = 0, arts = Map.empty, path = [] \<rparr>
      else
        (let baseTotalZ = baseTotal instances;
             frontier = finalFrontier instances st;
             bestState =
               (if targetType st = Zhenyuan
                then selectZhenyuan frontier baseTotalZ (targetValue st)
                else selectTime frontier (targetValue st))
         in case bestState of
              None \<Rightarrow> None
            | Some b \<Rightarrow>
                Some \<lparr> totalZhenyuan = st_z b + baseTotalZ,
                       totalTimeHours = st_t b,
                       arts = finalArts 0 instances (choices b) Map.empty,
                       path = [] \<rparr>))"

section \<open>Auxiliary definitions for the proofs\<close>

text \<open>What \<^const>\<open>optionsLoop\<close> still pushes when \<open>n\<close> turns remain, as a structural
  recursion.\<close>

fun optsFrom :: "nat \<Rightarrow> int \<Rightarrow> art_instance \<Rightarrow> settings \<Rightarrow> real \<Rightarrow> opt list" where
  "optsFrom 0 l inst st cumTime = []"
| "optsFrom (Suc n) l inst st cumTime =
     \<lparr> opt_level = l + 10,
       opt_z = getZhenyuan (l + 10) (difficulty inst) (isMain inst),
       opt_t = cumTime + getStepCost l (difficulty inst) (speed st) (reduction st) \<rparr>
     # optsFrom n (l + 10) inst st
         (cumTime + getStepCost l (difficulty inst) (speed st) (reduction st))"

text \<open>The checkpoint grid 99, 109, ..., and the factor of the primary/secondary flag.\<close>

definition gridLevel :: "nat \<Rightarrow> int" where
  "gridLevel k = 99 + 10 * int k"

definition zFactor :: "bool \<Rightarrow> real" where
  "zFactor m = (if m then 1 else 1 / 2)"

text \<open>The frontier after the first \<open>k\<close> instances of a run over \<open>instances\<close>.\<close>

definition frontierAfter :: "nat \<Rightarrow> art_instance list \<Rightarrow> settings \<Rightarrow> state list" where
  "frontierAfter k instances st =
     mergeLoop 0 (take k (map (\<lambda>inst. instanceOptions inst st) instances))
       (initialFrontier (length instances))"

text \<open>What the prune loop maintains between two turns: the seen buckets are those of the
  kept states, no bucket is kept twice, the kept times fall strictly, and the threshold is
  the time of the state kept last.\<close>

definition pruneInv :: "prune_vars \<Rightarrow> bool" where
  "pruneInv v \<longleftrightarrow>
     seenBuckets v = bucketOf ` set (pruned v) \<and>
     distinct (map bucketOf (pruned v)) \<and>
     sorted_wrt (\<lambda>a b. st_t b < st_t a) (pruned v) \<and>
     minTimeSeen v = (if pruned v = [] then None else Some (st_t (last (pruned v))))"

section \<open>The game formulas: basic facts\<close>

lemma cultLoop_sum:
  "cultLoop l stop d c = c + sum_list (map (\<lambda>j. getLevelUpCostValue j d) [l..stop - 1])"
proof (induction l stop d c rule: cultLoop.induct)
  case (1 l stop d c)
  show ?case
  proof (cases "l < stop")
    case True
    then have "[l..stop - 1] = l # [l + 1..stop - 1]"
      by (simp add: upto_rec1)
    with True 1 show ?thesis
      by (subst cultLoop.simps) simp
  next
    case False
    then show ?thesis
      by (subst cultLoop.simps) simp
  qed
qed

lemma getStepCost_sum:
  "getStepCost l d sp r =
     getBreakthroughTime l r
     + sum_list (map (\<lambda>j. getLevelUpCostValue j d) [l..l + 9]) / sp"
proof -
  have e: "l + 10 - 1 = l + 9" by simp
  show ?thesis
    unfolding getStepCost_def Let_def cultLoop_sum e by simp
qed

lemma modifier_pos: "0 < getDifficultyModifier l"
  by (simp add: getDifficultyModifier_def)

lemma levelUpCost_pos:
  assumes "0 < d" and "0 \<le> l"
  shows "0 < getLevelUpCostValue l d"
proof -
  have "0 \<le> real_of_int l ^ 3" using assms(2) by simp
  then have "0 < real_of_int l ^ 3 + 1000" by linarith
  with assms(1) have "0 < d * (real_of_int l ^ 3 + 1000)" by (rule mult_pos_pos)
  then have "0 < d * (real_of_int l ^ 3 + 1000) / 100" by simp
  then show ?thesis
    unfolding getLevelUpCostValue_def using modifier_pos [of l] by simp
qed

lemma breakthrough_nonneg: "r \<le> 100 \<Longrightarrow> 0 \<le> getBreakthroughTime l r"
  by (simp add: getBreakthroughTime_def)

lemma sum_list_pos_real:
  fixes f :: "int \<Rightarrow> real"
  shows "xs \<noteq> [] \<Longrightarrow> (\<And>x. x \<in> set xs \<Longrightarrow> 0 < f x) \<Longrightarrow> 0 < sum_list (map f xs)"
proof (induction xs)
  case Nil
  then show ?case by simp
next
  case (Cons a xs)
  show ?case
  proof (cases "xs = []")
    case True
    with Cons.prems show ?thesis by simp
  next
    case False
    with Cons have "0 < sum_list (map f xs)" and "0 < f a" by simp_all
    then show ?thesis by simp
  qed
qed

lemma stepCost_pos:
  assumes "0 < d" and "0 < sp" and "r \<le> 100" and "0 \<le> l"
  shows "0 < getStepCost l d sp r"
proof -
  have ne: "[l..l + 9] \<noteq> []" by (simp add: upto_rec1)
  have "0 < sum_list (map (\<lambda>j. getLevelUpCostValue j d) [l..l + 9])"
    by (rule sum_list_pos_real [OF ne]) (use assms in \<open>auto intro: levelUpCost_pos\<close>)
  then have "0 < sum_list (map (\<lambda>j. getLevelUpCostValue j d) [l..l + 9]) / sp"
    using assms(2) by simp
  with breakthrough_nonneg [OF assms(3), of l] show ?thesis
    by (simp add: getStepCost_sum)
qed

lemma getZhenyuan_alt:
  "getZhenyuan l d m = \<lfloor>3 * real_of_int l ^ 3 * d / 10127 * zFactor m\<rfloor>"
  by (simp add: getZhenyuan_def zFactor_def Let_def)

lemma zFactor_pos: "0 < zFactor m"
  by (simp add: zFactor_def)

lemma getZhenyuan_mono:
  assumes "0 \<le> d" and "0 \<le> a" and "a \<le> b"
  shows "getZhenyuan a d m \<le> getZhenyuan b d m"
proof -
  have "real_of_int a ^ 3 \<le> real_of_int b ^ 3"
    using assms(2,3) by (intro power_mono) simp_all
  then have "3 * real_of_int a ^ 3 * d / 10127 * zFactor m
             \<le> 3 * real_of_int b ^ 3 * d / 10127 * zFactor m"
    using assms(1) zFactor_pos [of m]
    by (intro mult_right_mono divide_right_mono mult_left_mono) simp_all
  then show ?thesis
    unfolding getZhenyuan_alt by (rule floor_mono)
qed

text \<open>One span of ten levels gains at least one unit of value as soon as the unfloored
  gain of the first span, \<open>3 * 324730 * d * factor / 10127\<close>, is at least one.\<close>

lemma getZhenyuan_span_strict:
  assumes thr: "10127 \<le> 974190 * (d * zFactor m)" and l: "99 \<le> l"
  shows "getZhenyuan l d m < getZhenyuan (l + 10) d m"
proof -
  define x where "x = real_of_int l"
  have x: "99 \<le> x" using l by (simp add: x_def)
  have dpos: "0 \<le> d * zFactor m"
    using thr by simp
  have cube: "(x + 10) ^ 3 - x ^ 3 = 30 * x ^ 2 + 300 * x + 1000"
    by (simp add: power3_eq_cube power2_eq_square algebra_simps)
  have "99 * 99 \<le> x * x" using x by (intro mult_mono) simp_all
  then have "324730 \<le> (x + 10) ^ 3 - x ^ 3"
    using x by (simp add: cube power2_eq_square)
  then have "324730 * (d * zFactor m) \<le> ((x + 10) ^ 3 - x ^ 3) * (d * zFactor m)"
    using dpos by (rule mult_right_mono)
  with thr have "10127 \<le> 3 * (((x + 10) ^ 3 - x ^ 3) * (d * zFactor m))"
    by simp
  then have "3 * x ^ 3 * d / 10127 * zFactor m + 1 \<le> 3 * (x + 10) ^ 3 * d / 10127 * zFactor m"
    by (simp add: field_simps)
  then have "\<lfloor>3 * x ^ 3 * d / 10127 * zFactor m + 1\<rfloor>
             \<le> \<lfloor>3 * (x + 10) ^ 3 * d / 10127 * zFactor m\<rfloor>"
    by (rule floor_mono)
  then show ?thesis
    unfolding getZhenyuan_alt x_def by simp
qed

section \<open>The option curve in closed form\<close>

lemma optionsLoop_optsFrom:
  "l = 499 - 10 * int n \<Longrightarrow>
   optionsLoop l inst st cum acc = acc @ optsFrom n l inst st cum"
proof (induction n arbitrary: l cum acc)
  case 0
  then show ?case by (subst optionsLoop.simps) simp
next
  case (Suc n)
  from Suc.prems have lt: "l < 499" and nxt: "l + 10 = 499 - 10 * int n" by simp_all
  show ?case
    by (subst optionsLoop.simps) (simp add: lt Let_def Suc.IH [OF nxt])
qed

lemma instanceOptions_closed:
  "instanceOptions inst st =
     \<lparr> opt_level = 99, opt_z = getZhenyuan 99 (difficulty inst) (isMain inst), opt_t = 0 \<rparr>
     # optsFrom 40 99 inst st 0"
  unfolding instanceOptions_def by (subst optionsLoop_optsFrom [where n = 40]) simp_all

lemma length_optsFrom [simp]: "length (optsFrom n l inst st cum) = n"
  by (induction n arbitrary: l cum) simp_all

lemma optsFrom_nth:
  "k < n \<Longrightarrow>
   optsFrom n l inst st cum ! k =
     \<lparr> opt_level = l + 10 * (int k + 1),
       opt_z = getZhenyuan (l + 10 * (int k + 1)) (difficulty inst) (isMain inst),
       opt_t = cum + (\<Sum>j<Suc k. getStepCost (l + 10 * int j) (difficulty inst) (speed st) (reduction st)) \<rparr>"
proof (induction n arbitrary: l cum k)
  case 0
  then show ?case by simp
next
  case (Suc n)
  show ?case
  proof (cases k)
    case 0
    then show ?thesis by simp
  next
    case (Suc k')
    with Suc.prems have "k' < n" by simp
    from Suc.IH [OF this] Suc show ?thesis
      by (simp add: sum.lessThan_Suc_shift [where n = "Suc k'"] algebra_simps del: sum.lessThan_Suc)
  qed
qed

text \<open>Option \<open>k\<close> of the curve: its level, its value and its cumulative cost.\<close>

lemma length_instanceOptions [simp]: "length (instanceOptions inst st) = 41"
  by (simp add: instanceOptions_closed)

lemma instanceOptions_nth:
  assumes "k < 41"
  shows "instanceOptions inst st ! k =
     \<lparr> opt_level = gridLevel k,
       opt_z = getZhenyuan (gridLevel k) (difficulty inst) (isMain inst),
       opt_t = (\<Sum>j<k. getStepCost (gridLevel j) (difficulty inst) (speed st) (reduction st)) \<rparr>"
proof (cases k)
  case 0
  then show ?thesis by (simp add: instanceOptions_closed gridLevel_def)
next
  case (Suc k')
  with assms have "k' < 40" by simp
  from optsFrom_nth [OF this, of 99 inst st 0] Suc show ?thesis
    by (simp add: instanceOptions_closed gridLevel_def algebra_simps)
qed

section \<open>Claims about the formulas and the option curve\<close>

text \<open>
  C6.  The breakthrough charge of a span is taken at the span's starting level: base time
  2 for a start level in [99, 289], 4 in [299, 389], 8 from 399 on, and the charge is the
  base time multiplied by \<open>1 - reductionPercent / 100\<close>; getStepCost adds it to the
  cultivation time of the span that starts at the same level.
\<close>

theorem breakthrough_bands:
  "(99 \<le> l \<and> l \<le> 289 \<longrightarrow> getBreakthroughTime l r = 2 * (1 - r / 100)) \<and>
   (299 \<le> l \<and> l \<le> 389 \<longrightarrow> getBreakthroughTime l r = 4 * (1 - r / 100)) \<and>
   (399 \<le> l \<longrightarrow> getBreakthroughTime l r = 8 * (1 - r / 100)) \<and>
   getStepCost l d sp r = getBreakthroughTime l r + cultLoop l (l + 10) d 0 / sp"
  by (simp add: getBreakthroughTime_def getStepCost_def)

theorem breakthrough_bands_witness:
  "getBreakthroughTime 99 25 = 3 / 2 \<and> getBreakthroughTime 289 25 = 3 / 2 \<and>
   getBreakthroughTime 299 25 = 3 \<and> getBreakthroughTime 389 25 = 3 \<and>
   getBreakthroughTime 399 25 = 6 \<and> getBreakthroughTime 489 25 = 6"
  using breakthrough_bands [of 99 25 1 1] breakthrough_bands [of 289 25 1 1]
    breakthrough_bands [of 299 25 1 1] breakthrough_bands [of 389 25 1 1]
    breakthrough_bands [of 399 25 1 1] breakthrough_bands [of 489 25 1 1]
  by simp

text \<open>
  C5.  The option curve of an instance has its options exactly at the levels
  99, 109, ..., 499; option 0 is level 99 with the value at 99 and cost 0; every option
  carries the value of its level; the cost of option \<open>k + 1\<close> is the cost of option \<open>k\<close>
  plus the step cost of the span starting at level \<open>99 + 10 k\<close>; and a step cost is the
  breakthrough charge plus the sum of the ten per-level cost values divided by the speed.
\<close>

theorem curve_precomputer:
  "map opt_level (instanceOptions inst st) = map (\<lambda>k. 99 + 10 * int k) [0..<41] \<and>
   last (map opt_level (instanceOptions inst st)) = 499 \<and>
   instanceOptions inst st ! 0 =
     \<lparr> opt_level = 99, opt_z = getZhenyuan 99 (difficulty inst) (isMain inst), opt_t = 0 \<rparr> \<and>
   (\<forall>k<41. opt_z (instanceOptions inst st ! k) =
      getZhenyuan (99 + 10 * int k) (difficulty inst) (isMain inst)) \<and>
   (\<forall>k<40. opt_t (instanceOptions inst st ! Suc k) =
      opt_t (instanceOptions inst st ! k)
      + getStepCost (99 + 10 * int k) (difficulty inst) (speed st) (reduction st)) \<and>
   (\<forall>l. getStepCost l (difficulty inst) (speed st) (reduction st) =
      getBreakthroughTime l (reduction st)
      + sum_list (map (\<lambda>j. getLevelUpCostValue j (difficulty inst)) [l..l + 9]) / speed st)"
proof -
  let ?os = "instanceOptions inst st"
  have lv: "map opt_level ?os = map (\<lambda>k. 99 + 10 * int k) [0..<41]"
    by (rule nth_equalityI) (simp_all add: instanceOptions_nth gridLevel_def)
  have "last (map opt_level ?os) = map opt_level ?os ! (length (map opt_level ?os) - 1)"
    by (rule last_conv_nth) (simp add: instanceOptions_closed)
  also have "\<dots> = 499"
    by (simp add: instanceOptions_nth gridLevel_def)
  finally have la: "last (map opt_level ?os) = 499" .
  have z: "\<forall>k<41. opt_z (?os ! k) = getZhenyuan (99 + 10 * int k) (difficulty inst) (isMain inst)"
    by (simp add: instanceOptions_nth gridLevel_def)
  have t: "\<forall>k<40. opt_t (?os ! Suc k) =
      opt_t (?os ! k) + getStepCost (99 + 10 * int k) (difficulty inst) (speed st) (reduction st)"
    by (simp add: instanceOptions_nth gridLevel_def)
  show ?thesis
    using lv la z t by (simp add: instanceOptions_nth gridLevel_def getStepCost_sum)
qed

theorem curve_precomputer_witness:
  "opt_t (instanceOptions (mkInstance \<lparr> art_id = ''a'', difficulty = 1, isMain = True, count = 1 \<rparr> 0 0)
            \<lparr> speed = 1, reduction = 0, targetType = Time, targetValue = 0 \<rparr> ! 1)
     = 2224599 / 20 \<and>
   opt_z (instanceOptions (mkInstance \<lparr> art_id = ''a'', difficulty = 1, isMain = True, count = 1 \<rparr> 0 0)
            \<lparr> speed = 1, reduction = 0, targetType = Time, targetValue = 0 \<rparr> ! 1)
     = 383"
proof -
  let ?i = "mkInstance \<lparr> art_id = ''a'', difficulty = 1, isMain = True, count = 1 \<rparr> 0 0"
  let ?s = "\<lparr> speed = 1, reduction = 0, targetType = Time, targetValue = 0 \<rparr>"
  note c = curve_precomputer [of ?i ?s]
  have z: "opt_z (instanceOptions ?i ?s ! 1) = getZhenyuan 109 1 True"
    using c by (simp add: mkInstance_def)
  have "opt_t (instanceOptions ?i ?s ! Suc 0) = opt_t (instanceOptions ?i ?s ! 0) + getStepCost 99 1 1 0"
    using c by (simp add: mkInstance_def)
  moreover have "opt_t (instanceOptions ?i ?s ! 0) = 0"
    using c by simp
  moreover have "getStepCost 99 1 1 0 =
      getBreakthroughTime 99 0 + sum_list (map (\<lambda>j. getLevelUpCostValue j 1) [99..99 + 9]) / 1"
    using c by (simp add: mkInstance_def)
  ultimately have "opt_t (instanceOptions ?i ?s ! 1) = 2224599 / 20"
    by (simp add: getBreakthroughTime_def getLevelUpCostValue_def getDifficultyModifier_def)
  with z show ?thesis
    by (simp add: getZhenyuan_def)
qed

text \<open>
  C9.  When no replica is requested (the list of arts is empty, or every count is zero),
  optimize returns the zero result: value 0, time 0, the empty mapping, the empty path.
  The frontier is not built on this branch.
\<close>

lemma flattenFrom_no_replica:
  "\<forall>a\<in>set as. count a = 0 \<Longrightarrow> flattenFrom idx as = []"
  by (induction as arbitrary: idx) simp_all

theorem optimize_no_instances:
  "\<forall>a\<in>set as. count a = 0 \<Longrightarrow>
   optimize as st =
     Some \<lparr> totalZhenyuan = 0, totalTimeHours = 0, arts = Map.empty, path = [] \<rparr>"
  by (simp add: optimize_def flatten_def flattenFrom_no_replica)

theorem optimize_no_instances_witness:
  "optimize [] \<lparr> speed = 1, reduction = 0, targetType = Zhenyuan, targetValue = 5 \<rparr> =
     Some \<lparr> totalZhenyuan = 0, totalTimeHours = 0, arts = Map.empty, path = [] \<rparr> \<and>
   optimize [\<lparr> art_id = ''a'', difficulty = 3, isMain = True, count = 0 \<rparr>,
             \<lparr> art_id = ''b'', difficulty = 7, isMain = False, count = 0 \<rparr>]
       \<lparr> speed = 1, reduction = 0, targetType = Time, targetValue = 5 \<rparr> =
     Some \<lparr> totalZhenyuan = 0, totalTimeHours = 0, arts = Map.empty, path = [] \<rparr>"
  using optimize_no_instances [of "[]" "\<lparr> speed = 1, reduction = 0, targetType = Zhenyuan, targetValue = 5 \<rparr>"]
    optimize_no_instances [of "[\<lparr> art_id = ''a'', difficulty = 3, isMain = True, count = 0 \<rparr>,
             \<lparr> art_id = ''b'', difficulty = 7, isMain = False, count = 0 \<rparr>]"
       "\<lparr> speed = 1, reduction = 0, targetType = Time, targetValue = 5 \<rparr>"]
  by simp

section \<open>The prune loop\<close>

lemma bucketOf_div: "bucketOf s = st_z s div 100"
  unfolding bucketOf_def BUCKET_SIZE_def by (rule floor_divide_of_int_eq)

lemma falling_last_least:
  "sorted_wrt (\<lambda>a b. st_t b < st_t a) xs \<Longrightarrow> x \<in> set xs \<Longrightarrow> st_t (last xs) \<le> st_t x"
proof (induction xs rule: rev_induct)
  case Nil
  then show ?case by simp
next
  case (snoc y ys)
  then show ?case by (auto simp: sorted_wrt_append less_imp_le)
qed

lemma pruneInv_init: "pruneInv pruneInit"
  by (simp add: pruneInv_def pruneInit_def)

lemma beats_iff:
  assumes "pruneInv v"
  shows "beats x (minTimeSeen v) \<longleftrightarrow> (\<forall>p\<in>set (pruned v). x < st_t p)"
proof (cases "pruned v = []")
  case True
  with assms show ?thesis by (simp add: pruneInv_def beats_def)
next
  case False
  from assms have fall: "sorted_wrt (\<lambda>a b. st_t b < st_t a) (pruned v)"
    and m: "minTimeSeen v = Some (st_t (last (pruned v)))"
    using False by (simp_all add: pruneInv_def)
  show ?thesis
  proof
    assume "beats x (minTimeSeen v)"
    then have "x < st_t (last (pruned v))" by (simp add: m beats_def)
    then show "\<forall>p\<in>set (pruned v). x < st_t p"
      using falling_last_least [OF fall] by fastforce
  next
    assume "\<forall>p\<in>set (pruned v). x < st_t p"
    then have "x < st_t (last (pruned v))" using False by simp
    then show "beats x (minTimeSeen v)" by (simp add: m beats_def)
  qed
qed

lemma pruneStep_rule:
  assumes "pruneInv v"
  shows "pruneStep c v =
     (if (\<forall>p\<in>set (pruned v). st_t c < st_t p) \<and> bucketOf c \<notin> bucketOf ` set (pruned v)
      then \<lparr> pruned = pruned v @ [c], minTimeSeen = Some (st_t c),
             seenBuckets = insert (bucketOf c) (seenBuckets v) \<rparr>
      else v)"
proof -
  from assms have "seenBuckets v = bucketOf ` set (pruned v)" by (simp add: pruneInv_def)
  then show ?thesis
    unfolding pruneStep_def Let_def beats_iff [OF assms] by simp
qed

lemma pruneInv_step:
  assumes "pruneInv v"
  shows "pruneInv (pruneStep c v)"
proof (cases "(\<forall>p\<in>set (pruned v). st_t c < st_t p) \<and> bucketOf c \<notin> bucketOf ` set (pruned v)")
  case True
  with assms show ?thesis
    unfolding pruneStep_rule [OF assms]
    by (simp add: pruneInv_def sorted_wrt_append)
next
  case False
  with assms show ?thesis
    unfolding pruneStep_rule [OF assms] by auto
qed

lemma pruneInv_fold: "pruneInv v \<Longrightarrow> pruneInv (fold pruneStep xs v)"
  by (induction xs arbitrary: v) (simp_all add: pruneInv_step)

lemma pruneInv_pruneLoop: "pruneInv (pruneLoop cs)"
  unfolding pruneLoop_def by (rule pruneInv_fold [OF pruneInv_init])

lemma pruneLoop_snoc: "pruneLoop (cs @ [c]) = pruneStep c (pruneLoop cs)"
  by (simp add: pruneLoop_def)

lemma pruneStep_pruned_cases:
  "pruned (pruneStep c v) = pruned v \<or> pruned (pruneStep c v) = pruned v @ [c]"
  by (simp add: pruneStep_def Let_def)

lemma fold_prune_extends:
  "\<exists>ys. pruned (fold pruneStep xs v) = pruned v @ ys \<and> set ys \<subseteq> set xs"
proof (induction xs arbitrary: v)
  case Nil
  show ?case by simp
next
  case (Cons x xs)
  from Cons.IH [of "pruneStep x v"] obtain ys where
    ys: "pruned (fold pruneStep xs (pruneStep x v)) = pruned (pruneStep x v) @ ys"
        "set ys \<subseteq> set xs"
    by blast
  from pruneStep_pruned_cases [of x v] show ?case
  proof
    assume "pruned (pruneStep x v) = pruned v"
    with ys show ?thesis by auto
  next
    assume "pruned (pruneStep x v) = pruned v @ [x]"
    with ys have "pruned (fold pruneStep (x # xs) v) = pruned v @ (x # ys)"
      and "set (x # ys) \<subseteq> set (x # xs)"
      by auto
    then show ?thesis by blast
  qed
qed

lemma fold_prune_sorted:
  "sorted_wrt R (pruned v @ xs) \<Longrightarrow> sorted_wrt R (pruned (fold pruneStep xs v))"
proof (induction xs arbitrary: v)
  case Nil
  then show ?case by simp
next
  case (Cons x xs)
  from pruneStep_pruned_cases [of x v]
  have "sorted_wrt R (pruned (pruneStep x v) @ xs)"
    using Cons.prems by (auto simp: sorted_wrt_append)
  from Cons.IH [OF this] show ?case by simp
qed

lemma fold_prune_idle:
  "\<forall>s\<in>set xs. \<not> beats (st_t s) (minTimeSeen v) \<Longrightarrow> fold pruneStep xs v = v"
  by (induction xs) (simp_all add: pruneStep_def)

lemma pruneLoop_subset: "set (pruned (pruneLoop cs)) \<subseteq> set cs"
  using fold_prune_extends [of cs pruneInit] by (auto simp: pruneLoop_def pruneInit_def)

lemma pruneLoop_Cons:
  "\<exists>ys. pruned (pruneLoop (c # cs)) = c # ys \<and> set ys \<subseteq> set cs"
proof -
  have "pruned (pruneStep c pruneInit) = [c]"
    by (simp add: pruneStep_def pruneInit_def beats_def)
  with fold_prune_extends [of cs "pruneStep c pruneInit"] show ?thesis
    by (simp add: pruneLoop_def)
qed

lemma pruneLoop_sorted:
  "sorted_wrt R cs \<Longrightarrow> sorted_wrt R (pruned (pruneLoop cs))"
  unfolding pruneLoop_def by (rule fold_prune_sorted) (simp add: pruneInit_def)

lemma kept_min_time:
  assumes "pruneInv v" and "pruned v \<noteq> []"
  shows "Min (st_t ` set (pruned v)) = st_t (last (pruned v))"
proof (rule Min_eqI)
  show "finite (st_t ` set (pruned v))" by simp
  show "st_t (last (pruned v)) \<in> st_t ` set (pruned v)" using assms(2) by simp
  fix y assume "y \<in> st_t ` set (pruned v)"
  then show "st_t (last (pruned v)) \<le> y"
    using assms(1) falling_last_least [of "pruned v"] by (auto simp: pruneInv_def)
qed

section \<open>One merge step\<close>

lemma sortDesc_sorted: "sorted_wrt (\<lambda>a b. st_z b \<le> st_z a) (sortDesc xs)"
proof -
  have "sorted (map (\<lambda>s. - st_z s) (sortDesc xs))"
    unfolding sortDesc_def by (rule sorted_sort_key)
  then show ?thesis
    by (simp add: sorted_map)
qed

lemma set_sortDesc [simp]: "set (sortDesc xs) = set xs"
  by (simp add: sortDesc_def)

lemma mergeStep_subset: "set (mergeStep fr os i) \<subseteq> set (expand fr os i)"
  unfolding mergeStep_def using pruneLoop_subset [of "sortDesc (expand fr os i)"] by simp

lemma mergeStep_buckets: "distinct (map bucketOf (mergeStep fr os i))"
  unfolding mergeStep_def using pruneInv_pruneLoop by (simp add: pruneInv_def)

lemma mergeStep_falling:
  "sorted_wrt (\<lambda>a b. st_z b < st_z a \<and> st_t b < st_t a) (mergeStep fr os i)"
proof -
  let ?F = "mergeStep fr os i"
  have z: "sorted_wrt (\<lambda>a b. st_z b \<le> st_z a) ?F"
    unfolding mergeStep_def by (rule pruneLoop_sorted [OF sortDesc_sorted])
  have t: "sorted_wrt (\<lambda>a b. st_t b < st_t a) ?F"
    unfolding mergeStep_def using pruneInv_pruneLoop by (simp add: pruneInv_def)
  have b: "sorted_wrt (\<lambda>a b. bucketOf a \<noteq> bucketOf b) ?F"
    using mergeStep_buckets [of fr os i] by (simp add: distinct_map sorted_wrt_map
        distinct_conv_nth sorted_wrt_iff_nth_less inj_on_def)
  show ?thesis
    unfolding sorted_wrt_iff_nth_less
  proof (intro allI impI)
    fix j k assume jk: "j < k" "k < length ?F"
    from z jk have "st_z (?F ! k) \<le> st_z (?F ! j)" by (simp add: sorted_wrt_iff_nth_less)
    moreover from b jk have "bucketOf (?F ! j) \<noteq> bucketOf (?F ! k)"
      by (simp add: sorted_wrt_iff_nth_less)
    then have "st_z (?F ! j) \<noteq> st_z (?F ! k)" by (auto simp: bucketOf_div)
    moreover from t jk have "st_t (?F ! k) < st_t (?F ! j)" by (simp add: sorted_wrt_iff_nth_less)
    ultimately show "st_z (?F ! k) < st_z (?F ! j) \<and> st_t (?F ! k) < st_t (?F ! j)"
      by simp
  qed
qed

lemma candidate_sel [simp]:
  "st_z (candidate os i s o') = st_z s + (opt_z o' - opt_z (hd os))"
  "st_t (candidate os i s o') = st_t s + opt_t o'"
  "choices (candidate os i s o') = (choices s)[i := opt_level o']"
  by (simp_all add: candidate_def Let_def)

lemma in_expand:
  "c \<in> set (expand fr os i) \<longleftrightarrow> (\<exists>s\<in>set fr. \<exists>o'\<in>set os. c = candidate os i s o')"
  by (auto simp: expand_def)

lemma sortDesc_Nil_iff [simp]: "sortDesc xs = [] \<longleftrightarrow> xs = []"
  by (metis length_0_conv length_sort sortDesc_def)

lemma mergeStep_nonempty:
  assumes "fr \<noteq> []" and "os \<noteq> []"
  shows "mergeStep fr os i \<noteq> []"
proof -
  from assms have "expand fr os i \<noteq> []"
    by (cases fr; cases os) (simp_all add: expand_def)
  then obtain c cs where "sortDesc (expand fr os i) = c # cs"
    by (cases "sortDesc (expand fr os i)") simp_all
  with pruneLoop_Cons [of c cs] show ?thesis
    by (auto simp: mergeStep_def)
qed

text \<open>The first state of a merged frontier has the greatest value of all candidates.\<close>

lemma mergeStep_hd_greatest:
  assumes "c \<in> set (expand fr os i)"
  shows "mergeStep fr os i \<noteq> [] \<and> st_z c \<le> st_z (hd (mergeStep fr os i))"
proof -
  let ?S = "sortDesc (expand fr os i)"
  from assms have "?S \<noteq> []" by auto
  then obtain x xs where S: "?S = x # xs" by (cases ?S) simp_all
  from pruneLoop_Cons [of x xs] obtain ys where ys: "mergeStep fr os i = x # ys"
    by (auto simp: mergeStep_def S)
  from assms have "c \<in> set ?S" by simp
  with sortDesc_sorted [of "expand fr os i"] have "st_z c \<le> st_z x"
    unfolding S by auto
  with ys show ?thesis by simp
qed

section \<open>The fold over the instances\<close>

lemma mergeLoop_append:
  "mergeLoop i (xs @ ys) F = mergeLoop (i + length xs) ys (mergeLoop i xs F)"
  by (induction xs arbitrary: i F) simp_all

lemma frontierAfter_0 [simp]:
  "frontierAfter 0 insts st = initialFrontier (length insts)"
  by (simp add: frontierAfter_def)

lemma frontierAfter_Suc:
  assumes "k < length insts"
  shows "frontierAfter (Suc k) insts st =
           mergeStep (frontierAfter k insts st) (instanceOptions (insts ! k) st) k"
proof -
  let ?os = "map (\<lambda>inst. instanceOptions inst st) insts"
  from assms have "take (Suc k) ?os = take k ?os @ [instanceOptions (insts ! k) st]"
    by (simp add: take_Suc_conv_app_nth)
  then show ?thesis
    using assms by (simp add: frontierAfter_def mergeLoop_append)
qed

lemma finalFrontier_frontierAfter:
  "finalFrontier insts st = frontierAfter (length insts) insts st"
  by (simp add: finalFrontier_def frontierAfter_def)

lemma frontierAfter_invariant:
  assumes init: "P (initialFrontier (length insts))"
    and step: "\<And>k F. k < length insts \<Longrightarrow> P F \<Longrightarrow> P (mergeStep F (instanceOptions (insts ! k) st) k)"
    and k: "k \<le> length insts"
  shows "P (frontierAfter k insts st)"
  using k
proof (induction k)
  case 0
  show ?case using init by simp
next
  case (Suc k)
  then have "k < length insts" and "P (frontierAfter k insts st)" by simp_all
  then show ?case by (simp add: frontierAfter_Suc step)
qed

lemma instanceOptions_nonempty [simp]: "instanceOptions inst st \<noteq> []"
  by (simp add: instanceOptions_closed)

lemma hd_instanceOptions [simp]:
  "hd (instanceOptions inst st) =
     \<lparr> opt_level = 99, opt_z = getZhenyuan 99 (difficulty inst) (isMain inst), opt_t = 0 \<rparr>"
  by (simp add: instanceOptions_closed)

lemma in_instanceOptions:
  assumes "o' \<in> set (instanceOptions inst st)"
  obtains k where "k < 41"
    and "opt_level o' = gridLevel k"
    and "opt_z o' = getZhenyuan (gridLevel k) (difficulty inst) (isMain inst)"
    and "opt_t o' = (\<Sum>j<k. getStepCost (gridLevel j) (difficulty inst) (speed st) (reduction st))"
proof -
  from assms obtain k where k: "k < 41" and o': "o' = instanceOptions inst st ! k"
    by (auto simp: in_set_conv_nth)
  show ?thesis
    by (rule that [OF k]) (simp_all add: o' instanceOptions_nth [OF k])
qed

lemma frontierAfter_nonempty:
  "k \<le> length insts \<Longrightarrow> frontierAfter k insts st \<noteq> []"
  by (rule frontierAfter_invariant) (simp_all add: initialFrontier_def mergeStep_nonempty)

lemma frontierAfter_falling:
  "sorted_wrt (\<lambda>a b. st_z b < st_z a \<and> st_t b < st_t a) (frontierAfter k insts st)"
proof (cases "k \<le> length insts")
  case True
  then show ?thesis
    by (rule frontierAfter_invariant [rotated 2]) (simp_all add: initialFrontier_def mergeStep_falling)
next
  case False
  then have "frontierAfter k insts st = frontierAfter (length insts) insts st"
    by (simp add: frontierAfter_def)
  also have "sorted_wrt (\<lambda>a b. st_z b < st_z a \<and> st_t b < st_t a) \<dots>"
    by (rule frontierAfter_invariant) (simp_all add: initialFrontier_def mergeStep_falling)
  finally show ?thesis .
qed

text \<open>Every choice vector keeps one entry per instance, so the index written in a merge
  step and the indices read for the result are inside it.\<close>

lemma frontierAfter_choices_length:
  assumes "k \<le> length insts" and "s \<in> set (frontierAfter k insts st)"
  shows "length (choices s) = length insts"
proof -
  have "\<forall>s\<in>set (frontierAfter k insts st). length (choices s) = length insts"
  proof (rule frontierAfter_invariant [OF _ _ assms(1)])
    show "\<forall>s\<in>set (initialFrontier (length insts)). length (choices s) = length insts"
      by (simp add: initialFrontier_def)
  next
    fix j and F :: "state list"
    assume "j < length insts" and F: "\<forall>s\<in>set F. length (choices s) = length insts"
    show "\<forall>s\<in>set (mergeStep F (instanceOptions (insts ! j) st) j).
            length (choices s) = length insts"
    proof
      fix s assume "s \<in> set (mergeStep F (instanceOptions (insts ! j) st) j)"
      with mergeStep_subset obtain s' o' where "s' \<in> set F"
        and "s = candidate (instanceOptions (insts ! j) st) j s' o'"
        by (fastforce simp: in_expand)
      with F show "length (choices s) = length insts" by simp
    qed
  qed
  with assms(2) show ?thesis by blast
qed

section \<open>Claims about the prune phase and the frontier\<close>

text \<open>
  C1 (as the code has it).  After the prune loop has scanned the candidates \<open>cs\<close>, the
  threshold \<^verbatim>\<open>minTimeSeen\<close> is the least time among the kept candidates (and still
  \<^verbatim>\<open>Infinity\<close> when none is kept), the seen buckets are the buckets \<open>value div 100\<close> of the
  kept candidates, and no bucket has two kept candidates.  The next candidate \<open>c\<close> is kept
  exactly when its time is strictly below the time of every kept candidate and no kept
  candidate lies in its bucket; otherwise the loop variables stay as they are.  So the
  candidate kept for a bucket is the first one of that bucket that passes the time test,
  a later candidate of a represented bucket is dropped whatever its time, and a dropped
  candidate changes neither the threshold nor the buckets.  In a merge step the scan order
  is value descending.
\<close>

theorem prune_phase_rule:
  "(let v = pruneLoop cs in
      minTimeSeen v = (if pruned v = [] then None else Some (Min (st_t ` set (pruned v)))) \<and>
      seenBuckets v = (\<lambda>p. st_z p div 100) ` set (pruned v) \<and>
      distinct (map (\<lambda>p. st_z p div 100) (pruned v)) \<and>
      pruneLoop (cs @ [c]) =
        (if (\<forall>p\<in>set (pruned v). st_t c < st_t p) \<and>
            st_z c div 100 \<notin> (\<lambda>p. st_z p div 100) ` set (pruned v)
         then \<lparr> pruned = pruned v @ [c], minTimeSeen = Some (st_t c),
                seenBuckets = insert (st_z c div 100) (seenBuckets v) \<rparr>
         else v)) \<and>
   mergeStep frontier options i = pruned (pruneLoop (sortDesc (expand frontier options i))) \<and>
   sorted_wrt (\<lambda>a b. st_z b \<le> st_z a) (sortDesc (expand frontier options i))"
proof -
  have b: "bucketOf = (\<lambda>p. st_z p div 100)"
    by (rule ext) (rule bucketOf_div)
  note inv = pruneInv_pruneLoop [of cs]
  have "minTimeSeen (pruneLoop cs) =
      (if pruned (pruneLoop cs) = [] then None
       else Some (Min (st_t ` set (pruned (pruneLoop cs)))))"
    using inv kept_min_time [OF inv] by (simp add: pruneInv_def)
  moreover have "seenBuckets (pruneLoop cs) = (\<lambda>p. st_z p div 100) ` set (pruned (pruneLoop cs))"
    and "distinct (map (\<lambda>p. st_z p div 100) (pruned (pruneLoop cs)))"
    using inv by (simp_all add: pruneInv_def b)
  moreover note pruneStep_rule [OF inv, of c, unfolded b] pruneLoop_snoc [of cs c]
    sortDesc_sorted [of "expand frontier options i"]
  ultimately show ?thesis
    by (simp add: Let_def mergeStep_def)
qed

theorem prune_phase_rule_witness:
  "pruneLoop ([\<lparr> st_z = 250, st_t = 5, choices = [119, 99] \<rparr>,
               \<lparr> st_z = 150, st_t = 7, choices = [109, 109] \<rparr>] @
              [\<lparr> st_z = 120, st_t = 3, choices = [99, 119] \<rparr>]) =
     \<lparr> pruned = [\<lparr> st_z = 250, st_t = 5, choices = [119, 99] \<rparr>,
                 \<lparr> st_z = 120, st_t = 3, choices = [99, 119] \<rparr>],
       minTimeSeen = Some 3, seenBuckets = {1, 2} \<rparr>"
proof -
  let ?A = "\<lparr> st_z = 250, st_t = 5, choices = [119, 99] \<rparr>"
  let ?B = "\<lparr> st_z = 150, st_t = 7, choices = [109, 109] \<rparr>"
  let ?C = "\<lparr> st_z = 120, st_t = 3, choices = [99, 119] \<rparr>"
  have v: "pruneLoop [?A, ?B] = \<lparr> pruned = [?A], minTimeSeen = Some 5, seenBuckets = {2} \<rparr>"
    by (simp add: pruneLoop_def pruneStep_def pruneInit_def beats_def bucketOf_div)
  from prune_phase_rule [of "[?A, ?B]" ?C] show ?thesis
    unfolding v by (simp add: Let_def insert_commute)
qed

text \<open>
  C1 as stated fails where it says that the candidate kept for a bucket is the first one
  met in that bucket, the one of highest value: scanning the values 250, 150, 120 with
  times 5, 7, 3, the candidate of value 150 opens bucket 1 in the scan but fails the time
  test, and the later candidate of value 120 is the one kept for bucket 1.
\<close>

theorem prune_first_in_bucket_counterexample:
  "sortDesc [\<lparr> st_z = 250, st_t = 5, choices = [119, 99] \<rparr>,
             \<lparr> st_z = 150, st_t = 7, choices = [109, 109] \<rparr>,
             \<lparr> st_z = 120, st_t = 3, choices = [99, 119] \<rparr>] =
     [\<lparr> st_z = 250, st_t = 5, choices = [119, 99] \<rparr>,
      \<lparr> st_z = 150, st_t = 7, choices = [109, 109] \<rparr>,
      \<lparr> st_z = 120, st_t = 3, choices = [99, 119] \<rparr>] \<and>
   pruned (pruneLoop
     [\<lparr> st_z = 250, st_t = 5, choices = [119, 99] \<rparr>,
      \<lparr> st_z = 150, st_t = 7, choices = [109, 109] \<rparr>,
      \<lparr> st_z = 120, st_t = 3, choices = [99, 119] \<rparr>]) =
     [\<lparr> st_z = 250, st_t = 5, choices = [119, 99] \<rparr>,
      \<lparr> st_z = 120, st_t = 3, choices = [99, 119] \<rparr>] \<and>
   bucketOf \<lparr> st_z = 150, st_t = 7, choices = [109, 109] \<rparr> = 1 \<and>
   bucketOf \<lparr> st_z = 120, st_t = 3, choices = [99, 119] \<rparr> = 1"
  by (simp add: sortDesc_def pruneLoop_def pruneStep_def pruneInit_def beats_def bucketOf_div)

text \<open>
  C2 (as the code has it).  Every frontier a merge step produces, and so every frontier of
  the fold, is strictly value descending, and along it the time falls strictly as well:
  a state of lower value has a strictly lower time.
\<close>

theorem frontier_value_time_falling:
  "sorted_wrt (\<lambda>a b. st_z b < st_z a \<and> st_t b < st_t a) (mergeStep frontier options i) \<and>
   sorted_wrt (\<lambda>a b. st_z b < st_z a \<and> st_t b < st_t a) (frontierAfter k insts st) \<and>
   sorted_wrt (\<lambda>a b. st_z b < st_z a \<and> st_t b < st_t a) (finalFrontier insts st)"
  by (simp add: mergeStep_falling frontierAfter_falling finalFrontier_frontierAfter)

theorem frontier_value_time_falling_witness:
  "sorted_wrt (\<lambda>a b. st_z b < st_z a \<and> st_t b < st_t a)
     (finalFrontier [mkInstance \<lparr> art_id = ''a'', difficulty = 2, isMain = True, count = 1 \<rparr> 0 0]
        \<lparr> speed = 1, reduction = 0, targetType = Time, targetValue = 0 \<rparr>)"
  using frontier_value_time_falling
    [of "[]" "[]" 0 0 "[mkInstance \<lparr> art_id = ''a'', difficulty = 2, isMain = True, count = 1 \<rparr> 0 0]"
        "\<lparr> speed = 1, reduction = 0, targetType = Time, targetValue = 0 \<rparr>"]
  by simp

section \<open>The target selector\<close>

lemma scanTime_first:
  "j < length F \<Longrightarrow> st_t (F ! j) \<le> B \<Longrightarrow> \<forall>i<j. B < st_t (F ! i) \<Longrightarrow>
   scanTime F B = Some (F ! j)"
proof (induction F arbitrary: j)
  case Nil
  then show ?case by simp
next
  case (Cons x F)
  show ?case
  proof (cases j)
    case 0
    with Cons.prems show ?thesis by simp
  next
    case (Suc j')
    with Cons.prems have "B < st_t x" by auto
    moreover from Suc Cons.prems have "scanTime F B = Some (F ! j')"
      by (intro Cons.IH) auto
    ultimately show ?thesis using Suc by simp
  qed
qed

lemma scanTime_none: "\<forall>s\<in>set F. B < st_t s \<Longrightarrow> scanTime F B = None"
  by (induction F) simp_all

lemma scanTime_in: "scanTime F B = Some s \<Longrightarrow> s \<in> set F"
  by (induction F) (auto split: if_splits)

lemma selectTime_in:
  assumes "F \<noteq> []"
  obtains s where "selectTime F B = Some s" and "s \<in> set F"
proof (cases "scanTime F B")
  case None
  with assms have "selectTime F B = Some (last F)"
    by (simp add: selectTime_def last_conv_nth)
  with assms that show ?thesis by simp
next
  case (Some s)
  then have "selectTime F B = Some s" by (simp add: selectTime_def)
  with scanTime_in [OF Some] that show ?thesis by simp
qed

lemma scanZhenyuan_in:
  "scanZhenyuan F b tv best = Some s \<Longrightarrow> best = Some s \<or> s \<in> set F"
  by (induction F arbitrary: best) (auto split: if_splits)

lemma selectZhenyuan_in:
  assumes "F \<noteq> []"
  obtains s where "selectZhenyuan F b tv = Some s" and "s \<in> set F"
proof (cases "scanZhenyuan F b tv None")
  case None
  with assms have "selectZhenyuan F b tv = Some (hd F)"
    by (simp add: selectZhenyuan_def hd_conv_nth)
  with assms that show ?thesis by simp
next
  case (Some s)
  then have "selectZhenyuan F b tv = Some s" by (simp add: selectZhenyuan_def)
  with scanZhenyuan_in [OF Some] that show ?thesis by simp
qed

lemma finalFrontier_nonempty [simp]: "finalFrontier insts st \<noteq> []"
  by (simp add: finalFrontier_frontierAfter frontierAfter_nonempty)

text \<open>
  C7.  In time-budget mode the selector returns the first state of the final frontier,
  from its high-value end, whose time is within the budget; that state has the greatest
  value of all frontier states within the budget.  When no state is within the budget it
  returns the last state, which has the least time of the frontier.
\<close>

theorem selector_time_budget:
  "(let F = finalFrontier insts st in
      (\<forall>j<length F. st_t (F ! j) \<le> B \<and> (\<forall>i<j. B < st_t (F ! i)) \<longrightarrow>
          selectTime F B = Some (F ! j) \<and>
          (\<forall>s\<in>set F. st_t s \<le> B \<longrightarrow> st_z s \<le> st_z (F ! j))) \<and>
      ((\<forall>s\<in>set F. B < st_t s) \<longrightarrow>
          selectTime F B = Some (last F) \<and> (\<forall>s\<in>set F. st_t (last F) \<le> st_t s)) \<and>
      F \<noteq> [] \<and> sorted_wrt (\<lambda>a b. st_z b < st_z a) F)"
proof -
  let ?F = "finalFrontier insts st"
  have fall: "sorted_wrt (\<lambda>a b. st_z b < st_z a \<and> st_t b < st_t a) ?F"
    by (simp add: finalFrontier_frontierAfter frontierAfter_falling)
  have first: "selectTime ?F B = Some (?F ! j) \<and>
      (\<forall>s\<in>set ?F. st_t s \<le> B \<longrightarrow> st_z s \<le> st_z (?F ! j))"
    if j: "j < length ?F" and le: "st_t (?F ! j) \<le> B" and before: "\<forall>i<j. B < st_t (?F ! i)" for j
  proof
    show "selectTime ?F B = Some (?F ! j)"
      using scanTime_first [OF j le before] by (simp add: selectTime_def)
    show "\<forall>s\<in>set ?F. st_t s \<le> B \<longrightarrow> st_z s \<le> st_z (?F ! j)"
    proof (intro ballI impI)
      fix s assume "s \<in> set ?F" and sB: "st_t s \<le> B"
      then obtain i where i: "i < length ?F" and s: "s = ?F ! i"
        by (auto simp: in_set_conv_nth)
      from sB before have "\<not> i < j" by (auto simp: s)
      then consider "i = j" | "j < i" by linarith
      then show "st_z s \<le> st_z (?F ! j)"
      proof cases
        case 1
        then show ?thesis by (simp add: s)
      next
        case 2
        with fall i show ?thesis
          by (auto simp: s sorted_wrt_iff_nth_less less_imp_le)
      qed
    qed
  qed
  have none: "selectTime ?F B = Some (last ?F) \<and> (\<forall>s\<in>set ?F. st_t (last ?F) \<le> st_t s)"
    if "\<forall>s\<in>set ?F. B < st_t s"
  proof
    show "selectTime ?F B = Some (last ?F)"
      using scanTime_none [OF that] by (simp add: selectTime_def last_conv_nth)
    have "sorted_wrt (\<lambda>a b. st_t b < st_t a) ?F"
      by (rule sorted_wrt_mono_rel [OF _ fall]) simp
    then show "\<forall>s\<in>set ?F. st_t (last ?F) \<le> st_t s"
      using falling_last_least by blast
  qed
  have "sorted_wrt (\<lambda>a b. st_z b < st_z a) ?F"
    by (rule sorted_wrt_mono_rel [OF _ fall]) simp
  with first none show ?thesis
    by (simp add: Let_def)
qed

section \<open>Bounds on the frontier\<close>

lemma flattenFrom_fields:
  "inst \<in> set (flattenFrom idx as) \<Longrightarrow>
   \<exists>a\<in>set as. difficulty inst = difficulty a \<and> isMain inst = isMain a"
  by (induction as arbitrary: idx) (auto simp: mkInstance_def)

lemma flatten_fields:
  "inst \<in> set (flatten as) \<Longrightarrow>
   \<exists>a\<in>set as. difficulty inst = difficulty a \<and> isMain inst = isMain a"
  unfolding flatten_def by (rule flattenFrom_fields)

lemma baseTotal_sum:
  "baseTotal insts = (\<Sum>inst\<leftarrow>insts. getZhenyuan 99 (difficulty inst) (isMain inst))"
proof -
  have "fold (\<lambda>inst baseTotalZ. baseTotalZ + getZhenyuan 99 (difficulty inst) (isMain inst)) xs a
        = a + (\<Sum>inst\<leftarrow>xs. getZhenyuan 99 (difficulty inst) (isMain inst))"
    for xs :: "art_instance list" and a
    by (induction xs arbitrary: a) simp_all
  then show ?thesis by (simp add: baseTotal_def)
qed

lemma gridLevel_bounds: "k < 41 \<Longrightarrow> 99 \<le> gridLevel k \<and> gridLevel k \<le> 499"
  by (simp add: gridLevel_def)

lemma option_delta_bounds:
  assumes "o' \<in> set (instanceOptions inst st)" and "0 \<le> difficulty inst"
  shows "0 \<le> opt_z o' - opt_z (hd (instanceOptions inst st))"
    and "opt_z o' - opt_z (hd (instanceOptions inst st))
         \<le> getZhenyuan 499 (difficulty inst) (isMain inst) - getZhenyuan 99 (difficulty inst) (isMain inst)"
proof -
  from assms(1) obtain k where k: "k < 41"
    and z: "opt_z o' = getZhenyuan (gridLevel k) (difficulty inst) (isMain inst)"
    by (rule in_instanceOptions)
  from gridLevel_bounds [OF k] assms(2)
  have "getZhenyuan 99 (difficulty inst) (isMain inst) \<le> opt_z o'"
    and "opt_z o' \<le> getZhenyuan 499 (difficulty inst) (isMain inst)"
    unfolding z by (simp_all add: getZhenyuan_mono)
  then show "0 \<le> opt_z o' - opt_z (hd (instanceOptions inst st))"
    and "opt_z o' - opt_z (hd (instanceOptions inst st))
         \<le> getZhenyuan 499 (difficulty inst) (isMain inst) - getZhenyuan 99 (difficulty inst) (isMain inst)"
    by simp_all
qed

lemma option_time_nonneg:
  assumes "o' \<in> set (instanceOptions inst st)"
    and "0 < difficulty inst" and "0 < speed st" and "reduction st \<le> 100"
  shows "0 \<le> opt_t o'"
proof -
  from assms(1) obtain k where k: "k < 41"
    and t: "opt_t o' = (\<Sum>j<k. getStepCost (gridLevel j) (difficulty inst) (speed st) (reduction st))"
    by (rule in_instanceOptions)
  have "0 \<le> getStepCost (gridLevel j) (difficulty inst) (speed st) (reduction st)" for j
    using stepCost_pos [OF assms(2-4), of "gridLevel j"] by (simp add: gridLevel_def)
  then show ?thesis unfolding t by (intro sum_nonneg) simp
qed

lemma frontierAfter_buckets:
  "k \<le> length insts \<Longrightarrow> distinct (map bucketOf (frontierAfter k insts st))"
  by (rule frontierAfter_invariant) (simp_all add: initialFrontier_def mergeStep_buckets)

lemma getZhenyuan_anti:
  assumes "d \<le> 0" and "0 \<le> a" and "a \<le> b"
  shows "getZhenyuan b d m \<le> getZhenyuan a d m"
proof -
  have "real_of_int a ^ 3 \<le> real_of_int b ^ 3"
    using assms(2,3) by (intro power_mono) simp_all
  then have "3 * real_of_int b ^ 3 * d \<le> 3 * real_of_int a ^ 3 * d"
    using assms(1) by (intro mult_right_mono_neg) simp_all
  then have "3 * real_of_int b ^ 3 * d / 10127 \<le> 3 * real_of_int a ^ 3 * d / 10127"
    by (rule divide_right_mono) simp
  then have "3 * real_of_int b ^ 3 * d / 10127 * zFactor m
             \<le> 3 * real_of_int a ^ 3 * d / 10127 * zFactor m"
    by (rule mult_right_mono) (simp add: zFactor_pos less_imp_le)
  then show ?thesis
    unfolding getZhenyuan_alt by (rule floor_mono)
qed

text \<open>Whatever the sign of the difficulty, the gain of an option lies between 0 and the
  gain of level 499.\<close>

lemma option_delta_range:
  assumes "o' \<in> set (instanceOptions inst st)"
  shows "min 0 (getZhenyuan 499 (difficulty inst) (isMain inst)
                - getZhenyuan 99 (difficulty inst) (isMain inst))
           \<le> opt_z o' - opt_z (hd (instanceOptions inst st)) \<and>
         opt_z o' - opt_z (hd (instanceOptions inst st))
           \<le> max 0 (getZhenyuan 499 (difficulty inst) (isMain inst)
                     - getZhenyuan 99 (difficulty inst) (isMain inst))"
proof (cases "0 \<le> difficulty inst")
  case True
  from option_delta_bounds [OF assms True] show ?thesis by simp
next
  case False
  then have d: "difficulty inst \<le> 0" by simp
  from assms obtain k where k: "k < 41"
    and z: "opt_z o' = getZhenyuan (gridLevel k) (difficulty inst) (isMain inst)"
    by (rule in_instanceOptions)
  from gridLevel_bounds [OF k] d
  have "opt_z o' \<le> getZhenyuan 99 (difficulty inst) (isMain inst)"
    and "getZhenyuan 499 (difficulty inst) (isMain inst) \<le> opt_z o'"
    unfolding z by (simp_all add: getZhenyuan_anti)
  then show ?thesis by simp
qed

lemma frontierAfter_range:
  assumes "k \<le> length insts" and "s \<in> set (frontierAfter k insts st)"
  shows "(\<Sum>inst\<leftarrow>take k insts.
            min 0 (getZhenyuan 499 (difficulty inst) (isMain inst)
                   - getZhenyuan 99 (difficulty inst) (isMain inst))) \<le> st_z s \<and>
         st_z s \<le> (\<Sum>inst\<leftarrow>take k insts.
            max 0 (getZhenyuan 499 (difficulty inst) (isMain inst)
                   - getZhenyuan 99 (difficulty inst) (isMain inst)))"
  using assms
proof (induction k arbitrary: s)
  case 0
  then show ?case by (simp add: initialFrontier_def)
next
  case (Suc k)
  then have k: "k < length insts" by simp
  let ?os = "instanceOptions (insts ! k) st"
  from Suc.prems(2) have "s \<in> set (expand (frontierAfter k insts st) ?os k)"
    using mergeStep_subset by (auto simp: frontierAfter_Suc [OF k])
  then obtain s' o' where s': "s' \<in> set (frontierAfter k insts st)"
    and o': "o' \<in> set ?os" and s: "s = candidate ?os k s' o'"
    by (auto simp: in_expand)
  note ob = option_delta_range [OF o']
  from Suc.IH [OF _ s'] k
  have "(\<Sum>inst\<leftarrow>take k insts.
            min 0 (getZhenyuan 499 (difficulty inst) (isMain inst)
                   - getZhenyuan 99 (difficulty inst) (isMain inst))) \<le> st_z s'"
    and "st_z s' \<le> (\<Sum>inst\<leftarrow>take k insts.
            max 0 (getZhenyuan 499 (difficulty inst) (isMain inst)
                   - getZhenyuan 99 (difficulty inst) (isMain inst)))"
    by simp_all
  with ob show ?case
    by (simp add: s take_Suc_conv_app_nth [OF k])
qed

text \<open>
  C8.  After any prefix of \<open>k\<close> instances the frontier holds at most one state per bucket
  of width 100, and its values (relative to the baseline) lie in the range of the values
  achievable with the prefix: from \<open>lo\<close>, the sum of the negative level-499 gains, to \<open>hi\<close>,
  the sum of the positive ones, where the gain of an instance at level 499 is
  \<open>value(499) - value(99)\<close>.  So its size is at most the number of buckets that span this
  range.  For difficulties that are not negative the range is from 0 to the sum of the
  level-499 gains.
\<close>

theorem frontier_size_bound:
  assumes "k \<le> length insts"
  shows "(let gain = (\<lambda>inst :: art_instance.
                        getZhenyuan 499 (difficulty inst) (isMain inst)
                        - getZhenyuan 99 (difficulty inst) (isMain inst));
              lo = (\<Sum>inst\<leftarrow>take k insts. min 0 (gain inst));
              hi = (\<Sum>inst\<leftarrow>take k insts. max 0 (gain inst));
              F = frontierAfter k insts st
          in distinct (map (\<lambda>s. st_z s div 100) F) \<and>
             (\<forall>s\<in>set F. lo \<le> st_z s \<and> st_z s \<le> hi) \<and>
             int (length F) \<le> hi div 100 - lo div 100 + 1 \<and>
             ((\<forall>inst\<in>set insts. 0 \<le> difficulty inst) \<longrightarrow>
                lo = 0 \<and> hi = (\<Sum>inst\<leftarrow>take k insts. gain inst)))"
proof -
  define gain where "gain = (\<lambda>inst :: art_instance.
      getZhenyuan 499 (difficulty inst) (isMain inst) - getZhenyuan 99 (difficulty inst) (isMain inst))"
  define lo where "lo = (\<Sum>inst\<leftarrow>take k insts. min 0 (gain inst))"
  define hi where "hi = (\<Sum>inst\<leftarrow>take k insts. max 0 (gain inst))"
  define F where "F = frontierAfter k insts st"
  have b: "bucketOf = (\<lambda>s. st_z s div 100)"
    by (rule ext) (rule bucketOf_div)
  have dist: "distinct (map (\<lambda>s. st_z s div 100) F)"
    using frontierAfter_buckets [OF assms, of st] by (simp add: b F_def)
  have range: "\<forall>s\<in>set F. lo \<le> st_z s \<and> st_z s \<le> hi"
    unfolding lo_def hi_def gain_def F_def using frontierAfter_range [OF assms] by blast
  have "set (map (\<lambda>s. st_z s div 100) F) \<subseteq> {lo div 100..hi div 100}"
  proof
    fix x assume "x \<in> set (map (\<lambda>s. st_z s div 100) F)"
    then obtain s where "s \<in> set F" and x: "x = st_z s div 100" by auto
    with range have "lo \<le> st_z s" and "st_z s \<le> hi" by simp_all
    then have "lo div 100 \<le> x" and "x \<le> hi div 100"
      unfolding x by (simp_all add: zdiv_mono1)
    then show "x \<in> {lo div 100..hi div 100}" by simp
  qed
  then have "card (set (map (\<lambda>s. st_z s div 100) F)) \<le> card {lo div 100..hi div 100}"
    by (intro card_mono) simp_all
  moreover have "card (set (map (\<lambda>s. st_z s div 100) F)) = length F"
    using distinct_card [OF dist] by simp
  moreover from frontierAfter_nonempty [OF assms, of st] range have "lo \<le> hi"
    by (cases F) (auto simp: F_def)
  then have "lo div 100 \<le> hi div 100" by (simp add: zdiv_mono1)
  ultimately have size: "int (length F) \<le> hi div 100 - lo div 100 + 1"
    by simp
  have pos: "lo = 0 \<and> hi = (\<Sum>inst\<leftarrow>take k insts. gain inst)"
    if d: "\<forall>inst\<in>set insts. 0 \<le> difficulty inst"
  proof -
    have g: "0 \<le> gain inst" if "inst \<in> set (take k insts)" for inst
    proof -
      from that have "inst \<in> set insts" by (rule in_set_takeD)
      with d have "0 \<le> difficulty inst" by simp
      then show ?thesis
        unfolding gain_def by (simp add: getZhenyuan_mono)
    qed
    have "lo = (\<Sum>inst\<leftarrow>take k insts. 0)"
      unfolding lo_def by (rule arg_cong [where f = sum_list]) (use g in \<open>simp add: min_def\<close>)
    moreover have "hi = (\<Sum>inst\<leftarrow>take k insts. gain inst)"
      unfolding hi_def by (rule arg_cong [where f = sum_list]) (use g in \<open>simp add: max_def\<close>)
    ultimately show ?thesis
      by simp
  qed
  from dist range size pos show ?thesis
    unfolding Let_def gain_def [symmetric] lo_def [symmetric] hi_def [symmetric] F_def [symmetric]
    by blast
qed

theorem frontier_size_bound_witness:
  "length (frontierAfter 2
             [mkInstance \<lparr> art_id = ''a'', difficulty = 1, isMain = True, count = 2 \<rparr> 0 0,
              mkInstance \<lparr> art_id = ''a'', difficulty = 1, isMain = True, count = 2 \<rparr> 0 1]
             \<lparr> speed = 1, reduction = 0, targetType = Time, targetValue = 0 \<rparr>) \<le> 731"
proof -
  let ?A = "\<lparr> art_id = ''a'', difficulty = 1, isMain = True, count = 2 \<rparr>"
  let ?insts = "[mkInstance ?A 0 0, mkInstance ?A 0 1]"
  let ?S = "\<lparr> speed = 1, reduction = 0, targetType = Time, targetValue = 0 \<rparr>"
  have k: "2 \<le> length ?insts" by simp
  have z: "getZhenyuan 499 1 True = 36807" "getZhenyuan 99 1 True = 287"
    by (simp_all add: getZhenyuan_def)
  from frontier_size_bound [OF k, of ?S] show ?thesis
    by (simp add: Let_def mkInstance_def z)
qed

text \<open>
  C10 (as the code has it).  With at least one instance, positive difficulties, a positive
  speed and a reduction of at most 100 percent, every state of every frontier of the fold
  has a value gain and a time that are not negative, and optimize returns a record whose
  total value is at least the baseline total (the sum of the level-99 values) and whose
  total time is not negative, whichever target mode and target value are asked for.
\<close>

theorem frontier_nonnegative:
  assumes "flatten as \<noteq> []"
    and "\<forall>a\<in>set as. 0 < difficulty a"
    and "0 < speed st"
    and "reduction st \<le> 100"
  shows "(\<forall>k\<le>length (flatten as). \<forall>s\<in>set (frontierAfter k (flatten as) st).
            0 \<le> st_z s \<and> 0 \<le> st_t s) \<and>
         (\<exists>r. optimize as st = Some r \<and>
            (\<Sum>inst\<leftarrow>flatten as. getZhenyuan 99 (difficulty inst) (isMain inst)) \<le> totalZhenyuan r \<and>
            0 \<le> totalTimeHours r)"
proof -
  let ?insts = "flatten as"
  have d: "0 < difficulty inst" if "inst \<in> set ?insts" for inst
    using flatten_fields [OF that] assms(2) by auto
  have inv: "\<forall>s\<in>set (frontierAfter k ?insts st). 0 \<le> st_z s \<and> 0 \<le> st_t s"
    if "k \<le> length ?insts" for k
  proof (rule frontierAfter_invariant [OF _ _ that])
    show "\<forall>s\<in>set (initialFrontier (length ?insts)). 0 \<le> st_z s \<and> 0 \<le> st_t s"
      by (simp add: initialFrontier_def)
  next
    fix j and F :: "state list"
    assume j: "j < length ?insts" and F: "\<forall>s\<in>set F. 0 \<le> st_z s \<and> 0 \<le> st_t s"
    let ?os = "instanceOptions (?insts ! j) st"
    from j have dj: "0 < difficulty (?insts ! j)" by (intro d) simp
    show "\<forall>s\<in>set (mergeStep F ?os j). 0 \<le> st_z s \<and> 0 \<le> st_t s"
    proof
      fix s assume "s \<in> set (mergeStep F ?os j)"
      with mergeStep_subset obtain s' o' where s': "s' \<in> set F"
        and o': "o' \<in> set ?os" and s: "s = candidate ?os j s' o'"
        by (fastforce simp: in_expand)
      from option_delta_bounds(1) [OF o'] dj
      have "0 \<le> opt_z o' - opt_z (hd ?os)" by simp
      moreover have "0 \<le> opt_t o'"
        by (rule option_time_nonneg [OF o' dj assms(3,4)])
      ultimately show "0 \<le> st_z s \<and> 0 \<le> st_t s"
        using F s' by (simp add: s)
    qed
  qed
  let ?F = "finalFrontier ?insts st"
  let ?best = "if targetType st = Zhenyuan
               then selectZhenyuan ?F (baseTotal ?insts) (targetValue st)
               else selectTime ?F (targetValue st)"
  obtain b where b: "?best = Some b" and bF: "b \<in> set ?F"
  proof (cases "targetType st = Zhenyuan")
    case True
    with selectZhenyuan_in [of ?F "baseTotal ?insts" "targetValue st"] that show ?thesis
      by auto
  next
    case False
    with selectTime_in [of ?F "targetValue st"] that show ?thesis
      by auto
  qed
  from bF inv [of "length ?insts"] have "0 \<le> st_z b" and "0 \<le> st_t b"
    by (simp_all add: finalFrontier_frontierAfter)
  moreover have "optimize as st =
      Some \<lparr> totalZhenyuan = st_z b + baseTotal ?insts, totalTimeHours = st_t b,
             arts = finalArts 0 ?insts (choices b) Map.empty, path = [] \<rparr>"
    using assms(1) b by (simp add: optimize_def Let_def)
  ultimately have "\<exists>r. optimize as st = Some r \<and>
      (\<Sum>inst\<leftarrow>?insts. getZhenyuan 99 (difficulty inst) (isMain inst)) \<le> totalZhenyuan r \<and>
      0 \<le> totalTimeHours r"
    by (simp add: baseTotal_sum)
  with inv show ?thesis by blast
qed

theorem frontier_nonnegative_witness:
  "\<exists>r. optimize [\<lparr> art_id = ''a'', difficulty = 1, isMain = True, count = 1 \<rparr>]
          \<lparr> speed = 1, reduction = 100, targetType = Zhenyuan, targetValue = 1000000 \<rparr> = Some r \<and>
       287 \<le> totalZhenyuan r \<and> 0 \<le> totalTimeHours r"
proof -
  let ?A = "\<lparr> art_id = ''a'', difficulty = 1, isMain = True, count = 1 \<rparr>"
  let ?S = "\<lparr> speed = 1, reduction = 100, targetType = Zhenyuan, targetValue = 1000000 \<rparr>"
  have f: "flatten [?A] = [mkInstance ?A 0 0]"
    by (simp add: flatten_def)
  have z: "getZhenyuan 99 1 True = 287"
    by (simp add: getZhenyuan_def)
  have ne: "flatten [?A] \<noteq> []"
    unfolding f by simp
  have "\<forall>a\<in>set [?A]. 0 < difficulty a" "0 < speed ?S" "reduction ?S \<le> 100"
    by simp_all
  from frontier_nonnegative [OF ne this] show ?thesis
    unfolding f by (simp add: mkInstance_def z)
qed

section \<open>Monotonicity of the option curve\<close>

lemma partial_sums_strict:
  fixes f :: "nat \<Rightarrow> real"
  assumes "\<And>i. 0 < f i" and "j < k"
  shows "sum f {..<j} < sum f {..<k}"
  using assms(2)
proof (induction k)
  case 0
  then show ?case by simp
next
  case (Suc k)
  show ?case
  proof (cases "j = k")
    case True
    with assms(1) [of k] show ?thesis by simp
  next
    case False
    with Suc have "sum f {..<j} < sum f {..<k}" by simp
    with assms(1) [of k] show ?thesis by simp
  qed
qed

lemma gridLevel_mono: "j \<le> k \<Longrightarrow> gridLevel j \<le> gridLevel k"
  by (simp add: gridLevel_def)

lemma grid_value_strict:
  assumes thr: "10127 \<le> 974190 * (d * zFactor m)" and "j < k"
  shows "getZhenyuan (gridLevel j) d m < getZhenyuan (gridLevel k) d m"
proof -
  have d0: "0 \<le> d"
  proof (rule ccontr)
    assume "\<not> 0 \<le> d"
    then have "d * zFactor m < 0"
      using zFactor_pos [of m] by (simp add: mult_neg_pos)
    with thr show False by simp
  qed
  have "getZhenyuan (gridLevel j) d m < getZhenyuan (gridLevel j + 10) d m"
    by (rule getZhenyuan_span_strict [OF thr]) (simp add: gridLevel_def)
  also have "gridLevel j + 10 = gridLevel (Suc j)"
    by (simp add: gridLevel_def)
  also have "getZhenyuan (gridLevel (Suc j)) d m \<le> getZhenyuan (gridLevel k) d m"
    using assms(2) by (intro getZhenyuan_mono d0 gridLevel_mono) (simp_all add: gridLevel_def)
  finally show ?thesis .
qed

lemma option_times_strict:
  assumes "0 < difficulty inst" and "0 < speed st" and "reduction st \<le> 100"
    and "j < k" and "k < 41"
  shows "opt_t (instanceOptions inst st ! j) < opt_t (instanceOptions inst st ! k)"
proof -
  have "0 < getStepCost (gridLevel i) (difficulty inst) (speed st) (reduction st)" for i
    by (rule stepCost_pos [OF assms(1-3)]) (simp add: gridLevel_def)
  from partial_sums_strict [of "\<lambda>i. getStepCost (gridLevel i) (difficulty inst) (speed st) (reduction st)",
      OF this assms(4)]
  show ?thesis
    using assms(4,5) by (simp add: instanceOptions_nth)
qed

text \<open>
  C3 (as the code has it).  For an instance of positive difficulty, with a positive speed
  and a reduction of at most 100, the options are in strictly increasing level order and
  their cost is strictly increasing; their value, being floored, is increasing but not
  always strictly: it is strictly increasing as soon as the unfloored gain of the first
  span is at least one, \<open>974190 * difficulty * factor \<ge> 10127\<close> with factor 1 for a
  primary and 1/2 for a secondary art, in particular for every difficulty from 1 on.
\<close>

theorem option_curve_monotone:
  assumes "0 < difficulty inst" and "0 < speed st" and "reduction st \<le> 100"
  shows "sorted_wrt (<) (map opt_level (instanceOptions inst st)) \<and>
         sorted_wrt (<) (map opt_t (instanceOptions inst st)) \<and>
         sorted_wrt (\<le>) (map opt_z (instanceOptions inst st)) \<and>
         (10127 \<le> 974190 * (difficulty inst * (if isMain inst then 1 else 1 / 2)) \<longrightarrow>
            sorted_wrt (<) (map opt_z (instanceOptions inst st))) \<and>
         (1 \<le> difficulty inst \<longrightarrow> sorted_wrt (<) (map opt_z (instanceOptions inst st))) \<and>
         (\<forall>k<41. opt_z (instanceOptions inst st ! k) =
            getZhenyuan (99 + 10 * int k) (difficulty inst) (isMain inst))"
proof -
  let ?os = "instanceOptions inst st"
  have lv: "sorted_wrt (<) (map opt_level ?os)"
    by (simp add: sorted_wrt_iff_nth_less instanceOptions_nth gridLevel_def)
  have t: "sorted_wrt (<) (map opt_t ?os)"
    using option_times_strict [OF assms]
    by (simp add: sorted_wrt_iff_nth_less)
  have z: "sorted_wrt (\<le>) (map opt_z ?os)"
    unfolding sorted_wrt_iff_nth_less
  proof (intro allI impI)
    fix j k assume "j < k" "k < length (map opt_z ?os)"
    then have "j < 41" "k < 41" "j \<le> k" by simp_all
    then show "map opt_z ?os ! j \<le> map opt_z ?os ! k"
      using assms(1)
      by (simp add: instanceOptions_nth getZhenyuan_mono gridLevel_mono gridLevel_def)
  qed
  have zs: "sorted_wrt (<) (map opt_z ?os)"
    if thr: "10127 \<le> 974190 * (difficulty inst * zFactor (isMain inst))"
    unfolding sorted_wrt_iff_nth_less
  proof (intro allI impI)
    fix j k assume jk: "j < k" "k < length (map opt_z ?os)"
    then have "j < 41" "k < 41" by simp_all
    then show "map opt_z ?os ! j < map opt_z ?os ! k"
      using grid_value_strict [OF thr jk(1)] by (simp add: instanceOptions_nth)
  qed
  have one: "10127 \<le> 974190 * (difficulty inst * zFactor (isMain inst))"
    if "1 \<le> difficulty inst"
  proof -
    have "1 / 2 \<le> difficulty inst * zFactor (isMain inst)"
      using that by (simp add: zFactor_def)
    then show ?thesis by simp
  qed
  have zv: "\<forall>k<41. opt_z (?os ! k) = getZhenyuan (99 + 10 * int k) (difficulty inst) (isMain inst)"
    by (simp add: instanceOptions_nth gridLevel_def)
  have f: "(if isMain inst then 1 else 1 / 2) = zFactor (isMain inst)"
    by (simp add: zFactor_def)
  show ?thesis
    unfolding f using lv t z zs one zv by blast
qed

theorem option_curve_monotone_witness:
  "opt_t (instanceOptions (mkInstance \<lparr> art_id = ''a'', difficulty = 1, isMain = False, count = 1 \<rparr> 0 0)
            \<lparr> speed = 1, reduction = 0, targetType = Time, targetValue = 0 \<rparr> ! 0)
   < opt_t (instanceOptions (mkInstance \<lparr> art_id = ''a'', difficulty = 1, isMain = False, count = 1 \<rparr> 0 0)
            \<lparr> speed = 1, reduction = 0, targetType = Time, targetValue = 0 \<rparr> ! 1) \<and>
   opt_z (instanceOptions (mkInstance \<lparr> art_id = ''a'', difficulty = 1, isMain = False, count = 1 \<rparr> 0 0)
            \<lparr> speed = 1, reduction = 0, targetType = Time, targetValue = 0 \<rparr> ! 0)
   < opt_z (instanceOptions (mkInstance \<lparr> art_id = ''a'', difficulty = 1, isMain = False, count = 1 \<rparr> 0 0)
            \<lparr> speed = 1, reduction = 0, targetType = Time, targetValue = 0 \<rparr> ! 1)"
proof -
  let ?i = "mkInstance \<lparr> art_id = ''a'', difficulty = 1, isMain = False, count = 1 \<rparr> 0 0"
  let ?s = "\<lparr> speed = 1, reduction = 0, targetType = Time, targetValue = 0 \<rparr>"
  have "0 < difficulty ?i" "0 < speed ?s" "reduction ?s \<le> 100"
    by (simp_all add: mkInstance_def)
  note m = option_curve_monotone [OF this]
  have one: "1 \<le> difficulty ?i" by (simp add: mkInstance_def)
  from m have "sorted_wrt (<) (map opt_t (instanceOptions ?i ?s))" by blast
  then have "map opt_t (instanceOptions ?i ?s) ! 0 < map opt_t (instanceOptions ?i ?s) ! 1"
    by (rule sorted_wrt_nth_less) simp_all
  moreover from m one have "sorted_wrt (<) (map opt_z (instanceOptions ?i ?s))" by blast
  then have "map opt_z (instanceOptions ?i ?s) ! 0 < map opt_z (instanceOptions ?i ?s) ! 1"
    by (rule sorted_wrt_nth_less) simp_all
  ultimately show ?thesis by simp
qed

text \<open>
  C3 as stated fails for small positive difficulties: with difficulty 1/1000 the values at
  the levels 99 and 109 are both 0, so the option values are not strictly increasing.
\<close>

theorem option_value_strict_counterexample:
  "0 < difficulty (mkInstance \<lparr> art_id = ''a'', difficulty = 1 / 1000, isMain = True, count = 1 \<rparr> 0 0) \<and>
   getZhenyuan 99 (1 / 1000) True = 0 \<and> getZhenyuan 109 (1 / 1000) True = 0 \<and>
   \<not> sorted_wrt (<) (map opt_z
        (instanceOptions (mkInstance \<lparr> art_id = ''a'', difficulty = 1 / 1000, isMain = True, count = 1 \<rparr> 0 0)
           \<lparr> speed = 1, reduction = 0, targetType = Time, targetValue = 0 \<rparr>))"
proof -
  let ?i = "mkInstance \<lparr> art_id = ''a'', difficulty = 1 / 1000, isMain = True, count = 1 \<rparr> 0 0"
  let ?s = "\<lparr> speed = 1, reduction = 0, targetType = Time, targetValue = 0 \<rparr>"
  have z: "getZhenyuan 99 (1 / 1000) True = 0" "getZhenyuan 109 (1 / 1000) True = 0"
    by (simp_all add: getZhenyuan_def)
  have "\<not> sorted_wrt (<) (map opt_z (instanceOptions ?i ?s))"
  proof
    assume "sorted_wrt (<) (map opt_z (instanceOptions ?i ?s))"
    then have "map opt_z (instanceOptions ?i ?s) ! 0 < map opt_z (instanceOptions ?i ?s) ! 1"
      by (rule sorted_wrt_nth_less) simp_all
    then show False
      by (simp add: instanceOptions_nth gridLevel_def mkInstance_def z)
  qed
  with z show ?thesis by (simp add: mkInstance_def)
qed

section \<open>When the baseline state survives\<close>

lemma replicate_update_same [simp]: "(replicate n x)[i := x] = replicate n x"
  by (cases "i < n") (simp_all add: list_eq_iff_nth_eq nth_list_update)

lemma sorted_wrt_hd_last:
  assumes "sorted_wrt P xs" and "xs \<noteq> []" and "hd xs \<noteq> last xs"
  shows "P (hd xs) (last xs)"
proof (cases xs)
  case Nil
  with assms(2) show ?thesis by simp
next
  case (Cons x ys)
  with assms(3) have "ys \<noteq> []" by auto
  then have "last ys \<in> set ys" by simp
  with assms(1) Cons \<open>ys \<noteq> []\<close> show ?thesis by simp
qed

text \<open>One merge step keeps a zero-time, zero-gain last state last, when every other
  state and every other option gains at least one bucket width and costs time.\<close>

lemma baseline_step:
  assumes fr: "fr = xs @ [b]" and b: "st_z b = 0" "st_t b = 0"
    and xs: "\<forall>s\<in>set xs. 100 \<le> st_z s \<and> 0 < st_t s"
    and os: "os = o0 # os'" and o0: "opt_t o0 = 0"
    and os': "\<forall>o'\<in>set os'. 100 \<le> opt_z o' - opt_z o0 \<and> 0 < opt_t o'"
  shows "\<exists>ys. mergeStep fr os i = ys @ [candidate os i b o0] \<and>
              (\<forall>s\<in>set ys. 100 \<le> st_z s \<and> 0 < st_t s)"
proof -
  define bb where "bb = candidate os i b o0"
  define S where "S = sortDesc (expand fr os i)"
  have hd: "hd os = o0" by (simp add: os)
  have bb: "st_z bb = 0" "st_t bb = 0"
    by (simp_all add: bb_def hd b o0)
  have bk: "bucketOf bb = 0"
    by (simp add: bucketOf_div bb)
  have good: "c = bb \<or> (100 \<le> st_z c \<and> 0 < st_t c)" if "c \<in> set (expand fr os i)" for c
  proof -
    from that obtain s o' where s: "s \<in> set fr" and o': "o' \<in> set os"
      and c: "c = candidate os i s o'"
      by (auto simp: in_expand)
    from o' have oc: "o' = o0 \<or> o' \<in> set os'" by (auto simp: os)
    from s have sc: "s = b \<or> s \<in> set xs" by (auto simp: fr)
    have z: "st_z c = st_z s + (opt_z o' - opt_z o0)" and t: "st_t c = st_t s + opt_t o'"
      by (simp_all add: c hd)
    from sc show ?thesis
    proof
      assume sb: "s = b"
      from oc show ?thesis
      proof
        assume "o' = o0"
        with sb show ?thesis by (simp add: c bb_def)
      next
        assume "o' \<in> set os'"
        with os' have "100 \<le> opt_z o' - opt_z o0" "0 < opt_t o'" by simp_all
        then show ?thesis by (simp add: z t sb b)
      qed
    next
      assume "s \<in> set xs"
      with xs have sx: "100 \<le> st_z s" "0 < st_t s" by simp_all
      from oc show ?thesis
      proof
        assume "o' = o0"
        with sx show ?thesis by (simp add: z t o0)
      next
        assume "o' \<in> set os'"
        with os' have "100 \<le> opt_z o' - opt_z o0" "0 < opt_t o'" by simp_all
        with sx show ?thesis by (simp add: z t)
      qed
    qed
  qed
  have "bb \<in> set (expand fr os i)"
    unfolding bb_def in_expand by (simp add: fr os)
  then have "bb \<in> set S" by (simp add: S_def)
  from split_list_first [OF this]
  obtain S1 S2 where S: "S = S1 @ bb # S2" and nb: "bb \<notin> set S1"
    by blast
  have inS: "s \<in> set (expand fr os i)" if "s \<in> set S" for s
    using that by (simp add: S_def)
  have S1: "100 \<le> st_z s \<and> 0 < st_t s" if "s \<in> set S1" for s
  proof -
    from that have "s \<in> set (expand fr os i)" by (intro inS) (simp add: S)
    with good [of s] that nb show ?thesis by auto
  qed
  have S2: "st_t s = 0" if "s \<in> set S2" for s
  proof -
    from that have "s \<in> set (expand fr os i)" by (intro inS) (simp add: S)
    moreover from sortDesc_sorted [of "expand fr os i"] that have "st_z s \<le> st_z bb"
      unfolding S_def [symmetric] S by (simp add: sorted_wrt_append)
    ultimately show ?thesis
      using good [of s] bb by auto
  qed
  define v1 where "v1 = pruneLoop S1"
  have inv: "pruneInv v1" unfolding v1_def by (rule pruneInv_pruneLoop)
  have kept: "100 \<le> st_z s \<and> 0 < st_t s" if "s \<in> set (pruned v1)" for s
    using that pruneLoop_subset [of S1] S1 by (auto simp: v1_def)
  have "\<forall>p\<in>set (pruned v1). st_t bb < st_t p"
    using kept bb by simp
  moreover have "bucketOf bb \<notin> bucketOf ` set (pruned v1)"
  proof
    assume "bucketOf bb \<in> bucketOf ` set (pruned v1)"
    then obtain p where p: "p \<in> set (pruned v1)" and "bucketOf p = bucketOf bb" by auto
    then have "st_z p div 100 = 0" by (simp add: bk) (simp add: bucketOf_div)
    moreover from kept [OF p] have "100 \<le> st_z p" by simp
    then have "1 \<le> st_z p div 100" by presburger
    ultimately show False by simp
  qed
  ultimately have step: "pruneStep bb v1 =
      \<lparr> pruned = pruned v1 @ [bb], minTimeSeen = Some (st_t bb),
        seenBuckets = insert (bucketOf bb) (seenBuckets v1) \<rparr>"
    by (simp add: pruneStep_rule [OF inv])
  have "\<forall>s\<in>set S2. \<not> beats (st_t s) (minTimeSeen (pruneStep bb v1))"
    by (simp add: step S2 bb beats_def)
  then have idle: "fold pruneStep S2 (pruneStep bb v1) = pruneStep bb v1"
    by (rule fold_prune_idle)
  have "pruneLoop S = fold pruneStep S2 (pruneStep bb v1)"
    by (simp add: S pruneLoop_def v1_def)
  then have "pruned (pruneLoop S) = pruned v1 @ [bb]"
    unfolding idle by (simp add: step)
  then have "mergeStep fr os i = pruned v1 @ [candidate os i b o0]"
    by (simp add: mergeStep_def S_def bb_def)
  with kept show ?thesis by blast
qed

lemma later_options_gain:
  assumes d: "0 < difficulty inst" and sp: "0 < speed st" and r: "reduction st \<le> 100"
    and gap: "100 \<le> getZhenyuan 109 (difficulty inst) (isMain inst)
                    - getZhenyuan 99 (difficulty inst) (isMain inst)"
    and o': "o' \<in> set (tl (instanceOptions inst st))"
  shows "100 \<le> opt_z o' - opt_z (hd (instanceOptions inst st)) \<and> 0 < opt_t o'"
proof -
  let ?os = "instanceOptions inst st"
  from o' obtain k where k: "k < 40" and ok: "o' = tl ?os ! k"
    by (auto simp: in_set_conv_nth)
  then have o'': "o' = ?os ! Suc k" by (simp add: nth_tl)
  from k have k': "Suc k < 41" by simp
  have "getZhenyuan (gridLevel 1) (difficulty inst) (isMain inst)
        \<le> getZhenyuan (gridLevel (Suc k)) (difficulty inst) (isMain inst)"
    using d by (intro getZhenyuan_mono gridLevel_mono) (simp_all add: gridLevel_def)
  with gap have "100 \<le> opt_z o' - opt_z (hd ?os)"
    by (simp add: o'' instanceOptions_nth [OF k'] gridLevel_def)
  moreover have "opt_t (?os ! 0) < opt_t (?os ! Suc k)"
    by (rule option_times_strict [OF d sp r _ k']) simp
  then have "0 < opt_t o'"
    by (simp add: o'' instanceOptions_nth)
  ultimately show ?thesis ..
qed

lemma baseline_last:
  assumes insts: "\<forall>inst\<in>set insts. 0 < difficulty inst \<and>
      100 \<le> getZhenyuan 109 (difficulty inst) (isMain inst)
             - getZhenyuan 99 (difficulty inst) (isMain inst)"
    and sp: "0 < speed st" and r: "reduction st \<le> 100" and k: "k \<le> length insts"
  shows "\<exists>xs. frontierAfter k insts st =
                 xs @ [\<lparr> st_z = 0, st_t = 0, choices = replicate (length insts) 99 \<rparr>] \<and>
              (\<forall>s\<in>set xs. 100 \<le> st_z s \<and> 0 < st_t s)"
proof (rule frontierAfter_invariant [OF _ _ k])
  show "\<exists>xs. initialFrontier (length insts) =
                 xs @ [\<lparr> st_z = 0, st_t = 0, choices = replicate (length insts) 99 \<rparr>] \<and>
              (\<forall>s\<in>set xs. 100 \<le> st_z s \<and> 0 < st_t s)"
    by (simp add: initialFrontier_def)
next
  fix j and F :: "state list"
  assume j: "j < length insts"
    and "\<exists>xs. F = xs @ [\<lparr> st_z = 0, st_t = 0, choices = replicate (length insts) 99 \<rparr>] \<and>
              (\<forall>s\<in>set xs. 100 \<le> st_z s \<and> 0 < st_t s)"
  then obtain xs where F: "F = xs @ [\<lparr> st_z = 0, st_t = 0, choices = replicate (length insts) 99 \<rparr>]"
    and xs: "\<forall>s\<in>set xs. 100 \<le> st_z s \<and> 0 < st_t s"
    by blast
  let ?b = "\<lparr> st_z = 0, st_t = 0, choices = replicate (length insts) 99 \<rparr>"
  let ?os = "instanceOptions (insts ! j) st"
  from j insts have dj: "0 < difficulty (insts ! j)"
    and gj: "100 \<le> getZhenyuan 109 (difficulty (insts ! j)) (isMain (insts ! j))
                    - getZhenyuan 99 (difficulty (insts ! j)) (isMain (insts ! j))"
    by simp_all
  have os: "?os = hd ?os # tl ?os"
    by (rule hd_Cons_tl [symmetric]) simp
  have tl: "\<forall>o'\<in>set (tl ?os). 100 \<le> opt_z o' - opt_z (hd ?os) \<and> 0 < opt_t o'"
    using later_options_gain [OF dj sp r gj] by blast
  from baseline_step [OF F _ _ xs os _ tl, of j]
  obtain ys where "mergeStep F ?os j = ys @ [candidate ?os j ?b (hd ?os)]"
    and "\<forall>s\<in>set ys. 100 \<le> st_z s \<and> 0 < st_t s"
    by auto
  moreover have "candidate ?os j ?b (hd ?os) = ?b"
    by (simp add: candidate_def)
  ultimately show "\<exists>xs. mergeStep F ?os j = xs @ [?b] \<and> (\<forall>s\<in>set xs. 100 \<le> st_z s \<and> 0 < st_t s)"
    by auto
qed

lemma scanZhenyuan_all:
  "\<forall>s\<in>set F. tv \<le> real_of_int (st_z s + b) \<Longrightarrow>
   scanZhenyuan F b tv best = (if F = [] then best else Some (last F))"
  by (induction F arbitrary: best) simp_all

lemma showNat_digits: "showNat 0 = ''0''" "showNat 1 = ''1''"
  by (simp_all add: showNat.simps char_of_def bit_0)

lemma showNat_Suc_0: "showNat (Suc 0) = ''1''"
  using showNat_digits(2) by simp

text \<open>
  C4 (as the code has it).  For one art with replica count 2, positive difficulty,
  positive speed and a reduction of at most 100, in resource-floor mode with the target
  twice the level-99 value: when the first span gains at least one bucket width,
  \<open>value(109) - value(99) \<ge> 100\<close>, optimize returns total time 0, total value twice the
  level-99 value, and both instances at level 99.
\<close>

theorem two_replicas_stay_at_baseline:
  assumes "0 < d" and "0 < speed st" and "reduction st \<le> 100"
    and "targetType st = Zhenyuan"
    and "targetValue st = real_of_int (2 * getZhenyuan 99 d m)"
    and "100 \<le> getZhenyuan 109 d m - getZhenyuan 99 d m"
  shows "optimize [\<lparr> art_id = n, difficulty = d, isMain = m, count = 2 \<rparr>] st =
           Some \<lparr> totalZhenyuan = 2 * getZhenyuan 99 d m,
                  totalTimeHours = 0,
                  arts = [n @ ''_0'' \<mapsto> 99, n @ ''_1'' \<mapsto> 99],
                  path = [] \<rparr>"
proof -
  let ?A = "\<lparr> art_id = n, difficulty = d, isMain = m, count = 2 \<rparr>"
  define insts where "insts = [mkInstance ?A 0 0, mkInstance ?A 0 1]"
  have "[0..<2] = [0, Suc 0]" by (simp add: upt_rec)
  then have fl: "flatten [?A] = insts"
    by (simp add: flatten_def insts_def)
  have len: "length insts = 2" and ne: "insts \<noteq> []" by (simp_all add: insts_def)
  have base: "baseTotal insts = 2 * getZhenyuan 99 d m"
    by (simp add: baseTotal_def insts_def mkInstance_def)
  have "\<forall>inst\<in>set insts. 0 < difficulty inst \<and>
      100 \<le> getZhenyuan 109 (difficulty inst) (isMain inst)
             - getZhenyuan 99 (difficulty inst) (isMain inst)"
    using assms(1,6) by (simp add: insts_def mkInstance_def)
  from baseline_last [OF this assms(2,3), of "length insts"]
  obtain xs where F: "finalFrontier insts st =
      xs @ [\<lparr> st_z = 0, st_t = 0, choices = replicate 2 99 \<rparr>]"
    and xs: "\<forall>s\<in>set xs. 100 \<le> st_z s \<and> 0 < st_t s"
    by (auto simp: finalFrontier_frontierAfter len)
  have "\<forall>s\<in>set (finalFrontier insts st). targetValue st \<le> real_of_int (st_z s + baseTotal insts)"
    unfolding F base assms(5) using xs by auto
  from scanZhenyuan_all [OF this, of None]
  have "selectZhenyuan (finalFrontier insts st) (baseTotal insts) (targetValue st) =
      Some \<lparr> st_z = 0, st_t = 0, choices = replicate 2 99 \<rparr>"
    by (simp add: selectZhenyuan_def F)
  moreover have "replicate 2 (99::int) = [99, 99]"
    by (simp add: numeral_2_eq_2)
  moreover have "finalArts 0 insts [99, 99] Map.empty = [n @ ''_0'' \<mapsto> 99, n @ ''_1'' \<mapsto> 99]"
    by (simp add: insts_def mkInstance_def showNat_digits showNat_Suc_0)
  ultimately show ?thesis
    using assms(4) by (simp add: optimize_def fl ne base)
qed

theorem two_replicas_stay_at_baseline_witness:
  "optimize [\<lparr> art_id = ''a'', difficulty = 2, isMain = True, count = 2 \<rparr>]
     \<lparr> speed = 1, reduction = 0, targetType = Zhenyuan, targetValue = 1148 \<rparr> =
   Some \<lparr> totalZhenyuan = 1148, totalTimeHours = 0,
          arts = [''a_0'' \<mapsto> 99, ''a_1'' \<mapsto> 99], path = [] \<rparr>"
proof -
  let ?S = "\<lparr> speed = 1, reduction = 0, targetType = Zhenyuan, targetValue = 1148 \<rparr>"
  have z: "getZhenyuan 99 2 True = 574" "getZhenyuan 109 2 True = 767"
    by (simp_all add: getZhenyuan_def)
  have "(0::real) < 2" "0 < speed ?S" "reduction ?S \<le> 100" "targetType ?S = Zhenyuan"
    "targetValue ?S = real_of_int (2 * getZhenyuan 99 2 True)"
    "100 \<le> getZhenyuan 109 2 True - getZhenyuan 99 2 True"
    by (simp_all add: z)
  from two_replicas_stay_at_baseline [OF this, of "''a''"] show ?thesis
    by (simp add: z)
qed

text \<open>
  C2 as stated fails: along a frontier the time falls with the value, it does not rise.
  For a single primary art of difficulty 2 (speed 1, no reduction) the last state of the
  final frontier has both a lower value and a lower time than the first.
\<close>

theorem frontier_time_rising_counterexample:
  "st_z (last (finalFrontier [mkInstance \<lparr> art_id = ''a'', difficulty = 2, isMain = True, count = 1 \<rparr> 0 0]
                 \<lparr> speed = 1, reduction = 0, targetType = Time, targetValue = 0 \<rparr>))
   < st_z (hd (finalFrontier [mkInstance \<lparr> art_id = ''a'', difficulty = 2, isMain = True, count = 1 \<rparr> 0 0]
                 \<lparr> speed = 1, reduction = 0, targetType = Time, targetValue = 0 \<rparr>)) \<and>
   st_t (last (finalFrontier [mkInstance \<lparr> art_id = ''a'', difficulty = 2, isMain = True, count = 1 \<rparr> 0 0]
                 \<lparr> speed = 1, reduction = 0, targetType = Time, targetValue = 0 \<rparr>))
   < st_t (hd (finalFrontier [mkInstance \<lparr> art_id = ''a'', difficulty = 2, isMain = True, count = 1 \<rparr> 0 0]
                 \<lparr> speed = 1, reduction = 0, targetType = Time, targetValue = 0 \<rparr>)) \<and>
   \<not> sorted_wrt (\<lambda>a b. st_z b < st_z a \<longrightarrow> st_t a < st_t b)
       (finalFrontier [mkInstance \<lparr> art_id = ''a'', difficulty = 2, isMain = True, count = 1 \<rparr> 0 0]
                 \<lparr> speed = 1, reduction = 0, targetType = Time, targetValue = 0 \<rparr>)"
proof -
  define I where "I = mkInstance \<lparr> art_id = ''a'', difficulty = 2, isMain = True, count = 1 \<rparr> 0 0"
  define S where "S = \<lparr> speed = 1, reduction = 0, targetType = Time, targetValue = 0 \<rparr>"
  define F where "F = finalFrontier [I] S"
  have z: "getZhenyuan 99 2 True = 574" "getZhenyuan 109 2 True = 767"
    by (simp_all add: getZhenyuan_def)
  have "\<forall>inst\<in>set [I]. 0 < difficulty inst \<and>
      100 \<le> getZhenyuan 109 (difficulty inst) (isMain inst)
             - getZhenyuan 99 (difficulty inst) (isMain inst)"
    by (simp add: I_def mkInstance_def z)
  from baseline_last [OF this, of S 1]
  obtain xs where Fx: "F = xs @ [\<lparr> st_z = 0, st_t = 0, choices = replicate 1 99 \<rparr>]"
    by (auto simp: F_def S_def finalFrontier_frontierAfter)
  then have last: "st_z (last F) = 0" "st_t (last F) = 0" and ne: "F \<noteq> []"
    by simp_all
  have Fm: "F = mergeStep (initialFrontier 1) (instanceOptions I S) 0"
    by (simp add: F_def finalFrontier_frontierAfter frontierAfter_Suc)
  let ?c = "candidate (instanceOptions I S) 0 (hd (initialFrontier 1)) (instanceOptions I S ! 1)"
  have "?c \<in> set (expand (initialFrontier 1) (instanceOptions I S) 0)"
    unfolding in_expand by (rule bexI [of _ "hd (initialFrontier 1)"], rule bexI [of _ "instanceOptions I S ! 1"])
      (simp_all add: initialFrontier_def)
  from mergeStep_hd_greatest [OF this] have "st_z ?c \<le> st_z (hd F)"
    by (simp add: Fm)
  moreover have "st_z ?c = 193"
    by (simp add: instanceOptions_nth gridLevel_def initialFrontier_def I_def mkInstance_def z)
  ultimately have hdz: "st_z (last F) < st_z (hd F)"
    by (simp add: last)
  then have "hd F \<noteq> last F" by auto
  from sorted_wrt_hd_last [OF _ ne this, of "\<lambda>a b. st_z b < st_z a \<and> st_t b < st_t a"]
  have hdt: "st_t (last F) < st_t (hd F)"
    by (simp add: F_def finalFrontier_frontierAfter frontierAfter_falling)
  have "\<not> sorted_wrt (\<lambda>a b. st_z b < st_z a \<longrightarrow> st_t a < st_t b) F"
  proof
    assume "sorted_wrt (\<lambda>a b. st_z b < st_z a \<longrightarrow> st_t a < st_t b) F"
    from sorted_wrt_hd_last [OF this ne \<open>hd F \<noteq> last F\<close>] hdz hdt show False by simp
  qed
  with hdz hdt show ?thesis
    unfolding F_def I_def S_def by simp
qed

text \<open>The selector of C7 on the final frontier of a single primary art of difficulty 2:
  with budget 0 the first state within the budget is the baseline state, the last of the
  frontier; with budget -1 no state is within the budget and the same, cheapest state is
  the fallback.\<close>

theorem selector_time_budget_witness:
  "selectTime (finalFrontier [mkInstance \<lparr> art_id = ''a'', difficulty = 2, isMain = True, count = 1 \<rparr> 0 0]
                 \<lparr> speed = 1, reduction = 0, targetType = Time, targetValue = 0 \<rparr>) 0
     = Some \<lparr> st_z = 0, st_t = 0, choices = [99] \<rparr> \<and>
   selectTime (finalFrontier [mkInstance \<lparr> art_id = ''a'', difficulty = 2, isMain = True, count = 1 \<rparr> 0 0]
                 \<lparr> speed = 1, reduction = 0, targetType = Time, targetValue = 0 \<rparr>) (- 1)
     = Some \<lparr> st_z = 0, st_t = 0, choices = [99] \<rparr>"
proof -
  define I where "I = mkInstance \<lparr> art_id = ''a'', difficulty = 2, isMain = True, count = 1 \<rparr> 0 0"
  define S where "S = \<lparr> speed = 1, reduction = 0, targetType = Time, targetValue = 0 \<rparr>"
  define F where "F = finalFrontier [I] S"
  have z: "getZhenyuan 99 2 True = 574" "getZhenyuan 109 2 True = 767"
    by (simp_all add: getZhenyuan_def)
  have "\<forall>inst\<in>set [I]. 0 < difficulty inst \<and>
      100 \<le> getZhenyuan 109 (difficulty inst) (isMain inst)
             - getZhenyuan 99 (difficulty inst) (isMain inst)"
    by (simp add: I_def mkInstance_def z)
  from baseline_last [OF this, of S 1]
  obtain xs where Fx: "F = xs @ [\<lparr> st_z = 0, st_t = 0, choices = [99] \<rparr>]"
    and xs: "\<forall>s\<in>set xs. 100 \<le> st_z s \<and> 0 < st_t s"
    by (auto simp: F_def S_def finalFrontier_frontierAfter)
  note sel = selector_time_budget [of "[I]" S, unfolded Let_def, folded F_def]
  have j: "length xs < length F" "st_t (F ! length xs) \<le> 0" "\<forall>i<length xs. 0 < st_t (F ! i)"
    using xs by (simp_all add: Fx nth_append)
  with sel [of 0] have "selectTime F 0 = Some (F ! length xs)"
    by blast
  then have one: "selectTime F 0 = Some \<lparr> st_z = 0, st_t = 0, choices = [99] \<rparr>"
    by (simp add: Fx)
  have "\<forall>s\<in>set F. - 1 < st_t s"
    using xs by (auto simp: Fx)
  with sel [of "- 1"] have "selectTime F (- 1) = Some (last F)"
    by blast
  then have two: "selectTime F (- 1) = Some \<lparr> st_z = 0, st_t = 0, choices = [99] \<rparr>"
    by (simp add: Fx)
  from one two show ?thesis
    unfolding F_def I_def S_def by simp
qed

section \<open>When the baseline state is pruned\<close>

lemma insort_key_snoc:
  "\<forall>y\<in>set ys. f y < f x \<Longrightarrow> insort_key f x ys = ys @ [x]"
  by (induction ys) auto

lemma sort_key_rising_rev:
  "sorted_wrt (\<lambda>a b. f b < f a) xs \<Longrightarrow> sort_key f xs = rev xs"
  by (induction xs) (simp_all add: insort_key_snoc)

lemma sortDesc_rising:
  assumes "sorted_wrt (\<lambda>a b. st_z a < st_z b) xs"
  shows "sortDesc xs = rev xs"
  unfolding sortDesc_def
  by (rule sort_key_rising_rev) (rule sorted_wrt_mono_rel [OF _ assms], simp)

lemma expand_single: "expand [b] os i = map (candidate os i b) os"
  by (simp add: expand_def)

text \<open>When the times fall strictly along the scanned list, every candidate passes the
  time test, so the bucket of every candidate ends up seen.\<close>

lemma falling_all_buckets_seen:
  "sorted_wrt (\<lambda>a b. st_t b < st_t a) xs \<Longrightarrow> bucketOf ` set xs \<subseteq> seenBuckets (pruneLoop xs)"
proof (induction xs rule: rev_induct)
  case Nil
  show ?case by simp
next
  case (snoc c xs)
  let ?v = "pruneLoop xs"
  note inv = pruneInv_pruneLoop [of xs]
  from snoc.prems have fall: "sorted_wrt (\<lambda>a b. st_t b < st_t a) xs"
    and c: "\<forall>x\<in>set xs. st_t c < st_t x"
    by (simp_all add: sorted_wrt_append)
  from c pruneLoop_subset [of xs] have time: "\<forall>p\<in>set (pruned ?v). st_t c < st_t p"
    by blast
  from inv have seen: "seenBuckets ?v = bucketOf ` set (pruned ?v)"
    by (simp add: pruneInv_def)
  have "seenBuckets (pruneStep c ?v) = insert (bucketOf c) (seenBuckets ?v)"
    unfolding pruneStep_rule [OF inv] using time seen by auto
  with snoc.IH [OF fall] show ?case
    by (auto simp: pruneLoop_snoc)
qed

lemma pruneStep_seen_idle: "bucketOf c \<in> seenBuckets v \<Longrightarrow> pruneStep c v = v"
  by (simp add: pruneStep_def)

lemma options_times_rising:
  assumes "0 < difficulty inst" and "0 < speed st" and "reduction st \<le> 100"
  shows "sorted_wrt (\<lambda>a b. opt_t a < opt_t b) (instanceOptions inst st)"
  using option_times_strict [OF assms] by (simp add: sorted_wrt_iff_nth_less)

lemma options_values_rising:
  assumes "10127 \<le> 974190 * (difficulty inst * zFactor (isMain inst))"
  shows "sorted_wrt (\<lambda>a b. opt_z a < opt_z b) (instanceOptions inst st)"
  unfolding sorted_wrt_iff_nth_less
proof (intro allI impI)
  fix j k assume jk: "j < k" "k < length (instanceOptions inst st)"
  then have "j < 41" "k < 41" by simp_all
  then show "opt_z (instanceOptions inst st ! j) < opt_z (instanceOptions inst st ! k)"
    using grid_value_strict [OF assms jk(1)] by (simp add: instanceOptions_nth)
qed

text \<open>The first merge step, from the single initial state: when the values of the curve
  rise strictly but the first span gains less than one bucket width, the level-109
  candidate takes bucket 0 and the zero-time baseline candidate is dropped.\<close>

lemma first_step_drops_baseline:
  assumes d: "0 < difficulty inst" and sp: "0 < speed st" and r: "reduction st \<le> 100"
    and thr: "10127 \<le> 974190 * (difficulty inst * zFactor (isMain inst))"
    and gap: "getZhenyuan 109 (difficulty inst) (isMain inst)
              - getZhenyuan 99 (difficulty inst) (isMain inst) < 100"
    and b: "st_z b = 0" "st_t b = 0"
  shows "\<forall>s\<in>set (mergeStep [b] (instanceOptions inst st) i). 0 < st_t s"
proof -
  define os where "os = instanceOptions inst st"
  define cand where "cand = candidate os i b"
  have os: "os = hd os # tl os"
    unfolding os_def by (rule hd_Cons_tl [symmetric]) simp
  have tr: "sorted_wrt (\<lambda>a b. opt_t a < opt_t b) os"
    unfolding os_def by (rule options_times_rising [OF d sp r])
  have zr: "sorted_wrt (\<lambda>a b. opt_z a < opt_z b) os"
    unfolding os_def by (rule options_values_rising [OF thr])
  have hd0: "opt_t (hd os) = 0" by (simp add: os_def)
  have candz: "st_z (cand o') = opt_z o' - opt_z (hd os)"
    and candt: "st_t (cand o') = opt_t o'" for o'
    by (simp_all add: cand_def b)
  have "sorted_wrt (\<lambda>a b. st_z a < st_z b) (map cand os)"
    unfolding sorted_wrt_map by (rule sorted_wrt_mono_rel [OF _ zr]) (simp add: candz)
  then have "sortDesc (expand [b] os i) = rev (map cand os)"
    unfolding expand_single cand_def [symmetric] by (rule sortDesc_rising)
  also have "\<dots> = map cand (rev (tl os)) @ [cand (hd os)]"
    by (subst os) (simp add: rev_map)
  finally have S: "sortDesc (expand [b] os i) = map cand (rev (tl os)) @ [cand (hd os)]" .
  define R where "R = map cand (rev (tl os))"
  have tl_t: "0 < opt_t o'" if "o' \<in> set (tl os)" for o'
    using tr that hd0 by (subst (asm) os) auto
  have "sorted_wrt (\<lambda>a b. opt_t a < opt_t b) (tl os)"
    using tr by (subst (asm) os) simp
  then have Rfall: "sorted_wrt (\<lambda>a b. st_t b < st_t a) R"
    unfolding R_def sorted_wrt_map sorted_wrt_rev by (simp add: candt)
  have one: "os ! 1 \<in> set (tl os)"
    by (subst (2) os, subst (1) os) (simp add: os_def instanceOptions_closed)
  have "opt_z (hd os) < opt_z (os ! 1)"
    using zr one by (subst (asm) os) auto
  moreover have "opt_z (os ! 1) - opt_z (hd os) < 100"
    using gap by (simp add: os_def instanceOptions_nth gridLevel_def)
  ultimately have "bucketOf (cand (os ! 1)) = 0"
    by (simp add: bucketOf_div candz)
  moreover have "bucketOf (cand (hd os)) = 0"
    by (simp add: bucketOf_div candz)
  moreover have "cand (os ! 1) \<in> set R"
    using one by (simp add: R_def)
  ultimately have "bucketOf (cand (hd os)) \<in> seenBuckets (pruneLoop R)"
    using falling_all_buckets_seen [OF Rfall] by force
  then have "pruneLoop (R @ [cand (hd os)]) = pruneLoop R"
    by (simp add: pruneLoop_snoc pruneStep_seen_idle)
  then have "mergeStep [b] os i = pruned (pruneLoop R)"
    by (simp add: mergeStep_def S R_def)
  moreover have "0 < st_t s" if "s \<in> set R" for s
    using that tl_t by (auto simp: R_def candt)
  ultimately show ?thesis
    using pruneLoop_subset [of R] unfolding os_def by auto
qed

lemma mergeStep_time_positive:
  assumes "\<forall>s\<in>set F. 0 < st_t s" and "\<forall>o'\<in>set os. 0 \<le> opt_t o'"
  shows "\<forall>s\<in>set (mergeStep F os i). 0 < st_t s"
proof
  fix s assume "s \<in> set (mergeStep F os i)"
  with mergeStep_subset obtain s' o' where "s' \<in> set F" "o' \<in> set os" "s = candidate os i s' o'"
    by (fastforce simp: in_expand)
  with assms show "0 < st_t s"
    by (simp add: add_pos_nonneg)
qed

text \<open>
  C4 as stated fails for a primary art of difficulty 1 (speed 1, no reduction): the first
  span gains 383 - 287 = 96 < 100, the baseline state shares bucket 0 with the level-109
  state and is pruned in the first merge step, and every state of the final frontier
  costs time, so the returned total time is positive although the baseline meets the
  target 2 * 287 = 574.
\<close>

theorem two_replicas_counterexample:
  "optimize [\<lparr> art_id = ''a'', difficulty = 1, isMain = True, count = 2 \<rparr>]
     \<lparr> speed = 1, reduction = 0, targetType = Zhenyuan,
       targetValue = real_of_int (2 * getZhenyuan 99 1 True) \<rparr> \<noteq> None \<and>
   0 < totalTimeHours (the (optimize [\<lparr> art_id = ''a'', difficulty = 1, isMain = True, count = 2 \<rparr>]
     \<lparr> speed = 1, reduction = 0, targetType = Zhenyuan,
       targetValue = real_of_int (2 * getZhenyuan 99 1 True) \<rparr>)) \<and>
   optimize [\<lparr> art_id = ''a'', difficulty = 1, isMain = True, count = 2 \<rparr>]
     \<lparr> speed = 1, reduction = 0, targetType = Zhenyuan,
       targetValue = real_of_int (2 * getZhenyuan 99 1 True) \<rparr> \<noteq>
   Some \<lparr> totalZhenyuan = 2 * getZhenyuan 99 1 True, totalTimeHours = 0,
          arts = [''a_0'' \<mapsto> 99, ''a_1'' \<mapsto> 99], path = [] \<rparr>"
proof -
  define A where "A = \<lparr> art_id = ''a'', difficulty = 1, isMain = True, count = 2 \<rparr>"
  define S where "S = \<lparr> speed = 1, reduction = 0, targetType = Zhenyuan,
       targetValue = real_of_int (2 * getZhenyuan 99 1 True) \<rparr>"
  define insts where "insts = [mkInstance A 0 0, mkInstance A 0 1]"
  have "[0..<2] = [0, Suc 0]" by (simp add: upt_rec)
  then have fl: "flatten [A] = insts"
    by (simp add: flatten_def insts_def A_def)
  have ne: "insts \<noteq> []" by (simp add: insts_def)
  have z: "getZhenyuan 99 1 True = 287" "getZhenyuan 109 1 True = 383"
    by (simp_all add: getZhenyuan_def)
  have i0: "0 < difficulty (insts ! 0)" "0 < speed S" "reduction S \<le> 100"
    "10127 \<le> 974190 * (difficulty (insts ! 0) * zFactor (isMain (insts ! 0)))"
    "getZhenyuan 109 (difficulty (insts ! 0)) (isMain (insts ! 0))
       - getZhenyuan 99 (difficulty (insts ! 0)) (isMain (insts ! 0)) < 100"
    by (simp_all add: insts_def mkInstance_def A_def S_def zFactor_def z)
  define b0 where "b0 = \<lparr> st_z = 0, st_t = 0, choices = [99, 99] \<rparr>"
  have "frontierAfter 1 insts S = mergeStep [b0] (instanceOptions (insts ! 0) S) 0"
    by (simp add: frontierAfter_Suc insts_def initialFrontier_def b0_def)
  moreover have "st_z b0 = 0" "st_t b0 = 0"
    by (simp_all add: b0_def)
  ultimately have F1: "\<forall>s\<in>set (frontierAfter 1 insts S). 0 < st_t s"
    using first_step_drops_baseline [OF i0, of b0 0] by simp
  have "0 < difficulty (insts ! 1)"
    by (simp add: insts_def mkInstance_def A_def)
  then have "\<forall>o'\<in>set (instanceOptions (insts ! 1) S). 0 \<le> opt_t o'"
    using option_time_nonneg [OF _ _ i0(2,3)] by blast
  from mergeStep_time_positive [OF F1 this, of 1]
  have F2: "\<forall>s\<in>set (finalFrontier insts S). 0 < st_t s"
    using frontierAfter_Suc [of 1 insts S]
    by (simp add: finalFrontier_frontierAfter insts_def numeral_2_eq_2)
  obtain b where b: "selectZhenyuan (finalFrontier insts S) (baseTotal insts) (targetValue S) = Some b"
    and bF: "b \<in> set (finalFrontier insts S)"
    by (rule selectZhenyuan_in [OF finalFrontier_nonempty])
  have "optimize [A] S =
      Some \<lparr> totalZhenyuan = st_z b + baseTotal insts, totalTimeHours = st_t b,
             arts = finalArts 0 insts (choices b) Map.empty, path = [] \<rparr>"
    using b ne by (simp add: optimize_def fl S_def)
  moreover from F2 bF have "0 < st_t b" by simp
  ultimately show ?thesis
    unfolding A_def S_def by auto
qed

section \<open>A reduction above 100 percent\<close>

lemma levelUpCost_upper:
  assumes "0 \<le> l" and "l \<le> 498"
  shows "getLevelUpCostValue l 1 \<le> 3000000"
proof -
  have m: "getDifficultyModifier l \<le> 2"
    using assms by (simp add: getDifficultyModifier_def)
  have "real_of_int l ^ 3 \<le> 498 ^ 3"
    using assms by (intro power_mono) simp_all
  then have c: "1 * (real_of_int l ^ 3 + 1000) / 100 \<le> 1500000"
    by simp
  have "0 \<le> real_of_int l ^ 3" using assms(1) by simp
  then have c0: "0 \<le> 1 * (real_of_int l ^ 3 + 1000) / 100" by simp
  have "1 * (real_of_int l ^ 3 + 1000) / 100 * getDifficultyModifier l \<le> 1500000 * 2"
    using c m c0 modifier_pos [of l] by (intro mult_mono) simp_all
  then show ?thesis by (simp add: getLevelUpCostValue_def)
qed

lemma grid_breakthrough_base:
  assumes "j < 40"
  shows "getBreakthroughTime (gridLevel j) 200 \<le> - 2"
proof -
  consider "j \<le> 19" | "20 \<le> j" "j \<le> 29" | "30 \<le> j" by linarith
  then show ?thesis
    by cases (simp_all add: getBreakthroughTime_def gridLevel_def)
qed

lemma step_negative:
  assumes "j < 40"
  shows "getStepCost (gridLevel j) 1 100000000 200 < 0"
proof -
  let ?l = "gridLevel j"
  have "(\<Sum>i\<leftarrow>[?l..?l + 9]. getLevelUpCostValue i 1) \<le> (\<Sum>i\<leftarrow>[?l..?l + 9]. 3000000)"
    using assms by (intro sum_list_mono levelUpCost_upper) (simp_all add: gridLevel_def)
  also have "\<dots> = 30000000"
    by (simp add: sum_list_triv)
  finally have "(\<Sum>i\<leftarrow>[?l..?l + 9]. getLevelUpCostValue i 1) / 100000000 \<le> 3 / 10"
    by simp
  with grid_breakthrough_base [OF assms] show ?thesis
    by (simp add: getStepCost_sum)
qed

text \<open>
  C10 as stated fails when the reduction exceeds 100 percent, which the claim's
  conditions do not exclude and the code does not check: with reduction 200 the
  breakthrough charge is negative, and with speed \<open>10^8\<close> it outweighs the cultivation time,
  so for one primary art of difficulty 1 the first frontier state has a negative time and
  optimize returns a negative total time.
\<close>

theorem negative_time_counterexample:
  "0 < difficulty \<lparr> art_id = ''a'', difficulty = 1, isMain = True, count = 1 \<rparr> \<and>
   0 < speed \<lparr> speed = 100000000, reduction = 200, targetType = Time, targetValue = 0 \<rparr> \<and>
   st_t (hd (frontierAfter 1 (flatten [\<lparr> art_id = ''a'', difficulty = 1, isMain = True, count = 1 \<rparr>])
     \<lparr> speed = 100000000, reduction = 200, targetType = Time, targetValue = 0 \<rparr>)) < 0 \<and>
   optimize [\<lparr> art_id = ''a'', difficulty = 1, isMain = True, count = 1 \<rparr>]
     \<lparr> speed = 100000000, reduction = 200, targetType = Time, targetValue = 0 \<rparr> \<noteq> None \<and>
   totalTimeHours (the (optimize [\<lparr> art_id = ''a'', difficulty = 1, isMain = True, count = 1 \<rparr>]
     \<lparr> speed = 100000000, reduction = 200, targetType = Time, targetValue = 0 \<rparr>)) < 0"
proof -
  define A where "A = \<lparr> art_id = ''a'', difficulty = 1, isMain = True, count = 1 \<rparr>"
  define S where "S = \<lparr> speed = 100000000, reduction = 200, targetType = Time, targetValue = 0 \<rparr>"
  define I where "I = mkInstance A 0 0"
  define os where "os = instanceOptions I S"
  define b0 where "b0 = \<lparr> st_z = 0, st_t = 0, choices = replicate 1 99 \<rparr>"
  define F where "F = mergeStep [b0] os 0"
  have fl: "flatten [A] = [I]"
    by (simp add: flatten_def A_def I_def)
  have z: "getZhenyuan 99 1 True = 287" "getZhenyuan 109 1 True = 383"
    by (simp_all add: getZhenyuan_def)
  have FA: "frontierAfter 1 [I] S = F" and FF: "finalFrontier [I] S = F"
    by (simp_all add: F_def os_def b0_def finalFrontier_frontierAfter frontierAfter_Suc
        initialFrontier_def)
  let ?c = "candidate os 0 b0 (os ! 1)"
  have "?c \<in> set (expand [b0] os 0)"
    unfolding in_expand by (rule bexI [of _ b0], rule bexI [of _ "os ! 1"]) (simp_all add: os_def)
  from mergeStep_hd_greatest [OF this] have ne: "F \<noteq> []" and "st_z ?c \<le> st_z (hd F)"
    by (simp_all add: F_def)
  moreover have "st_z ?c = 96"
    by (simp add: os_def instanceOptions_nth gridLevel_def b0_def I_def A_def mkInstance_def z)
  ultimately have hz: "0 < st_z (hd F)" by simp
  from ne have "hd F \<in> set F" by simp
  with mergeStep_subset [of "[b0]" os 0] have "hd F \<in> set (expand [b0] os 0)"
    unfolding F_def by blast
  then obtain o' where o': "o' \<in> set os"
    and h: "hd F = candidate os 0 b0 o'"
    unfolding in_expand by auto
  from o' obtain k where k: "k < 41"
    and oz: "opt_z o' = getZhenyuan (gridLevel k) (difficulty I) (isMain I)"
    and ot: "opt_t o' = (\<Sum>j<k. getStepCost (gridLevel j) (difficulty I) (speed S) (reduction S))"
    unfolding os_def by (rule in_instanceOptions)
  have "k \<noteq> 0"
  proof
    assume "k = 0"
    with hz show False
      by (simp add: h oz os_def gridLevel_def b0_def)
  qed
  have "(\<Sum>j<k. getStepCost (gridLevel j) 1 100000000 200) < (\<Sum>j<k. 0)"
    using k \<open>k \<noteq> 0\<close> by (intro sum_strict_mono step_negative) auto
  then have ht: "st_t (hd F) < 0"
    by (simp add: h ot b0_def I_def A_def S_def mkInstance_def)
  from ne obtain x xs where Fx: "F = x # xs" by (cases F) auto
  with ht have "selectTime F 0 = Some (hd F)"
    by (simp add: selectTime_def)
  moreover have "targetType S = Time" "targetValue S = 0"
    by (simp_all add: S_def)
  ultimately have "optimize [A] S =
      Some \<lparr> totalZhenyuan = st_z (hd F) + baseTotal [I], totalTimeHours = st_t (hd F),
             arts = finalArts 0 [I] (choices (hd F)) Map.empty, path = [] \<rparr>"
    by (simp add: optimize_def fl FF)
  moreover have "0 < difficulty A" "0 < speed S"
    by (simp_all add: A_def S_def)
  ultimately show ?thesis
    using ht FA unfolding A_def [symmetric] S_def [symmetric] fl by simp
qed

end
